theory Spec2Isabelle
  imports Complex_Main
begin

unbundle bit_operations_syntax

section \<open>Colour utilities\<close>

text \<open>
  JavaScript numbers are modelled by exact values: \<open>int\<close> where the program only ever
  stores integers, \<open>real\<close> where it divides or takes roots.  Hex colours are ASCII
  literals and are modelled as \<open>string\<close>.
\<close>

record rgb =
  r :: int
  g :: int
  b :: int

record xyz =
  x :: real
  y :: real
  z :: real

record lab =
  L :: real
  a :: real
  b :: real

definition clamp :: "int \<Rightarrow> int \<Rightarrow> int \<Rightarrow> int" where
  "clamp v lo hi = max lo (min hi v)"

definition hexDigit :: "char \<Rightarrow> int option" where
  "hexDigit c =
     (let n = int (of_char c :: nat) in
      if 48 \<le> n \<and> n \<le> 57 then Some (n - 48)
      else if 65 \<le> n \<and> n \<le> 70 then Some (n - 55)
      else if 97 \<le> n \<and> n \<le> 102 then Some (n - 87)
      else None)"

text \<open>\<open>parseInt(h, 16)\<close> on a string without leading white space: an optional sign, an
  optional prefix \<open>0x\<close>, then the longest run of hex digits; \<open>None\<close> stands for \<open>NaN\<close> (no
  digit at all).\<close>

fun parseHexFrom :: "int \<Rightarrow> string \<Rightarrow> int" where
  "parseHexFrom acc [] = acc"
| "parseHexFrom acc (c # cs) =
     (case hexDigit c of None \<Rightarrow> acc | Some d \<Rightarrow> parseHexFrom (16 * acc + d) cs)"

definition parseInt16 :: "string \<Rightarrow> int option" where
  "parseInt16 h =
     (let (sign, h1) =
            (case h of
               [] \<Rightarrow> (1, h)
             | c # cs \<Rightarrow>
                 if c = CHR ''-'' then (- 1, cs)
                 else if c = CHR ''+'' then (1, cs)
                 else (1, h));
          h2 = (case h1 of
                  c0 # c1 # cs \<Rightarrow>
                    if c0 = CHR ''0'' \<and> (c1 = CHR ''x'' \<or> c1 = CHR ''X'') then cs else h1
                | _ \<Rightarrow> h1)
      in case h2 of
           [] \<Rightarrow> None
         | c # cs \<Rightarrow>
             (case hexDigit c of
                None \<Rightarrow> None
              | Some d \<Rightarrow> Some (sign * parseHexFrom d cs)))"

fun removeFirstHash :: "string \<Rightarrow> string" where
  "removeFirstHash [] = []"
| "removeFirstHash (c # cs) = (if c = CHR ''#'' then cs else c # removeFirstHash cs)"

definition isBlank :: "char \<Rightarrow> bool" where
  "isBlank c = (c \<in> set [CHR '' '', CHR 0x09, CHR 0x0A, CHR 0x0B, CHR 0x0C, CHR 0x0D, CHR 0xA0])"

definition trimStr :: "string \<Rightarrow> string" where
  "trimStr h = rev (dropWhile isBlank (rev (dropWhile isBlank h)))"

text \<open>\<open>hexToRgb\<close>.  The shifts and masks read bits 16 to 23, 8 to 15 and 0 to 7 of the
  number; \<open>NaN\<close> converts to 0.\<close>

definition hexToRgb :: "string \<Rightarrow> rgb" where
  "hexToRgb hex =
     (let h = trimStr (removeFirstHash hex);
          h = (if length h = 3 then concat (map (\<lambda>c. [c, c]) h) else h);
          num = (case parseInt16 h of None \<Rightarrow> 0 | Some n \<Rightarrow> n)
      in \<lparr> r = (drop_bit 16 num) AND 255, g = (drop_bit 8 num) AND 255, b = num AND 255 \<rparr>)"

definition srgbToLinear :: "real \<Rightarrow> real" where
  "srgbToLinear c0 =
     (let c = c0 / 255 in
      if c \<le> 0.04045 then c / 12.92 else ((c + 0.055) / 1.055) powr 2.4)"

definition rgbToXyz :: "rgb \<Rightarrow> xyz" where
  "rgbToXyz c =
     (let R = srgbToLinear (real_of_int (r c));
          G = srgbToLinear (real_of_int (g c));
          B = srgbToLinear (real_of_int (rgb.b c))
      in \<lparr> x = 0.4124564 * R + 0.3575761 * G + 0.1804375 * B,
           y = 0.2126729 * R + 0.7151522 * G + 0.0721750 * B,
           z = 0.0193339 * R + 0.1191920 * G + 0.9503041 * B \<rparr>)"

definition labF :: "real \<Rightarrow> real" where
  "labF t = (if t > 216 / 24389 then root 3 t else (841 / 108) * t + 4 / 29)"

definition xyzToLab :: "xyz \<Rightarrow> lab" where
  "xyzToLab c =
     (let xr = x c / 0.95047; yr = y c / 1.0; zr = z c / 1.08883;
          fx = labF xr; fy = labF yr; fz = labF zr
      in \<lparr> L = 116 * fy - 16, a = 500 * (fx - fy), b = 200 * (fy - fz) \<rparr>)"

definition rgbToLab :: "rgb \<Rightarrow> lab" where
  "rgbToLab c = xyzToLab (rgbToXyz c)"

definition labDistance :: "lab \<Rightarrow> lab \<Rightarrow> real" where
  "labDistance l1 l2 =
     (let dL = L l1 - L l2; da = a l1 - a l2; db = lab.b l1 - lab.b l2
      in sqrt (dL * dL + da * da + db * db))"

section \<open>The fixed palette\<close>

definition PALETTE :: "string list" where
  "PALETTE =
    [''#000000'', ''#1A1A1A'', ''#545454'', ''#6D6D6D'', ''#898989'', ''#BFBFBF'', ''#FFFFFF'',
     ''#6D001A'', ''#BE0039'', ''#FF4500'', ''#FFA800'', ''#FFD635'', ''#FFF8B8'',
     ''#00A368'', ''#00CC78'', ''#7EED56'', ''#00756F'', ''#009EAA'', ''#00CCC0'',
     ''#2450A4'', ''#3690EA'', ''#51E9F4'', ''#493AC1'', ''#6A5CFF'', ''#94B3FF'',
     ''#811E9F'', ''#B44AC0'', ''#E4ABFF'', ''#DE107F'', ''#FF99AA'',
     ''#6D482F'', ''#9C6926'', ''#FFB470'']"

definition BASE_SET :: "string list" where
  "BASE_SET =
    [''#000000'', ''#1D2951'', ''#898989'', ''#D4D7D9'', ''#FFFFFF'', ''#6D001A'', ''#BE0039'',
     ''#FF4500'', ''#FFA800'', ''#FFD635'', ''#FFF8B8'',
     ''#7030A0'', ''#9C44C0'', ''#E4ABFF'', ''#DE107F'', ''#FF99AA'', ''#6D482F'', ''#9C6926'',
     ''#FFAB70'',
     ''#00A368'', ''#00CC78'', ''#7EED56'', ''#00756F'', ''#009EAA'', ''#00CCC0'', ''#51E9F4'',
     ''#2450A4'', ''#3690EA'']"

definition paletteRGB :: "rgb list" where
  "paletteRGB = map hexToRgb PALETTE"

definition paletteLab :: "lab list" where
  "paletteLab = map rgbToLab paletteRGB"

text \<open>
  The enabled vector is a JavaScript array of booleans.  An element is \<open>Some flag\<close>, or
  \<open>None\<close> where the array has a hole or holds \<open>undefined\<close>; every reader of the vector
  tests an element for truthiness only.
\<close>

type_synonym flags = "bool option list"

fun truthy :: "bool option \<Rightarrow> bool" where
  "truthy None = False"
| "truthy (Some v) = v"

definition enabledIndices :: "flags \<Rightarrow> nat list" where
  "enabledIndices paletteEnabled =
     filter (\<lambda>i. truthy (paletteEnabled ! i)) [0 ..< length paletteEnabled]"

datatype error =
    TypeError
  | CanvasError
  | InvalidCharacterError
  | URIError
  | SyntaxError
  | BadPayload
  | BadVersion

text \<open>
  The scan of \<open>pickNearest\<close>.  \<open>best\<close> starts at \<open>Infinity\<close>, which is \<open>None\<close> here:
  every distance is below it.  Reading \<open>paletteLab[i]\<close> past the end gives \<open>undefined\<close>,
  and \<open>labDistance\<close> then raises a \<open>TypeError\<close> on its field access.
\<close>

fun belowBest :: "real \<Rightarrow> real option \<Rightarrow> bool" where
  "belowBest d None = True"
| "belowBest d (Some best) = (d < best)"

fun nearestLoop :: "lab \<Rightarrow> nat list \<Rightarrow> real option \<Rightarrow> nat \<Rightarrow> error + nat" where
  "nearestLoop l [] best idx = Inr idx"
| "nearestLoop l (i # pool) best idx =
     (if i < length paletteLab then
        (let d = labDistance l (paletteLab ! i) in
         if belowBest d best then nearestLoop l pool (Some d) i
         else nearestLoop l pool best idx)
      else Inl TypeError)"

definition activePool :: "flags \<Rightarrow> nat list" where
  "activePool paletteEnabled =
     (if enabledIndices paletteEnabled \<noteq> [] then enabledIndices paletteEnabled
      else [0 ..< length PALETTE])"

definition pickNearestIdx :: "flags \<Rightarrow> rgb \<Rightarrow> error + nat" where
  "pickNearestIdx paletteEnabled c =
     nearestLoop (rgbToLab c) (activePool paletteEnabled) None 0"

definition pickNearest :: "flags \<Rightarrow> rgb \<Rightarrow> error + string" where
  "pickNearest paletteEnabled c =
     (case pickNearestIdx paletteEnabled c of
        Inl e \<Rightarrow> Inl e
      | Inr idx \<Rightarrow> Inr (PALETTE ! idx))"

text \<open>The first version of \<open>pickNearest\<close> (\<open>src/App.js\<close>), before colours could be
  disabled: the scan runs over the whole of \<open>paletteLab\<close>.\<close>

definition pickNearestAll :: "rgb \<Rightarrow> error + string" where
  "pickNearestAll c =
     (case nearestLoop (rgbToLab c) [0 ..< length paletteLab] None 0 of
        Inl e \<Rightarrow> Inl e
      | Inr idx \<Rightarrow> Inr (PALETTE ! idx))"

text \<open>The Lab distance from an input colour to palette entry \<open>i\<close>.\<close>

definition distTo :: "rgb \<Rightarrow> nat \<Rightarrow> real" where
  "distTo c i = labDistance (rgbToLab c) (paletteLab ! i)"

text \<open>The initial value of the \<open>paletteEnabled\<close> state: only the base set is enabled.\<close>

definition initialPaletteEnabled :: flags where
  "initialPaletteEnabled = map (\<lambda>hex. Some (hex \<in> set BASE_SET)) PALETTE"


section \<open>Numbers\<close>

text \<open>
  A Number is an IEEE 754 double.  \<open>Fin v\<close> is the finite double of value \<open>v\<close>; the two
  zeros are one value here, since the program never divides by a negative zero, and a zero
  of either sign prints as \<open>0\<close> and adds as \<open>0\<close>.  \<open>NaN\<close> is not a \<open>double\<close> of this type: an
  arithmetic result is a \<open>double option\<close>, and \<open>None\<close> is \<open>NaN\<close>.
\<close>

datatype double = Fin real | PosInf | NegInf

type_synonym jsnum = "double option"

text \<open>The nearest integer, a tie going to the even one.\<close>

definition roundHalfEven :: "real \<Rightarrow> int" where
  "roundHalfEven t =
     (let f = \<lfloor>t\<rfloor>; d = t - real_of_int f
      in if d < 1 / 2 then f else if 1 / 2 < d then f + 1 else if even f then f else f + 1)"

text \<open>The binary exponent of a positive number: \<open>2 ^ binExp m \<le> m < 2 ^ (binExp m + 1)\<close>.\<close>

function binExp :: "real \<Rightarrow> int" where
  "binExp m =
     (if m \<le> 0 then 0
      else if 2 \<le> m then binExp (m / 2) + 1
      else if m < 1 then binExp (m * 2) - 1
      else 0)"
  by pat_completeness auto
termination
proof (relation "measure (\<lambda>m. nat \<bar>\<lfloor>log 2 m\<rfloor>\<bar>)")
  show "wf (measure (\<lambda>m. nat \<bar>\<lfloor>log 2 m\<rfloor>\<bar>))" by simp
next
  fix m :: real
  assume "\<not> m \<le> 0" and "2 \<le> m"
  then have "log 2 (m / 2) = log 2 m - 1" and "1 \<le> log 2 m"
    by (simp_all add: log_divide le_log_iff)
  then have a: "\<lfloor>log 2 (m / 2)\<rfloor> = \<lfloor>log 2 m\<rfloor> - 1" and b: "1 \<le> \<lfloor>log 2 m\<rfloor>"
    by (simp_all add: le_floor_iff)
  show "(m / 2, m) \<in> measure (\<lambda>m. nat \<bar>\<lfloor>log 2 m\<rfloor>\<bar>)"
    using b unfolding in_measure a by arith
next
  fix m :: real
  assume "\<not> m \<le> 0" and "\<not> 2 \<le> m" and "m < 1"
  then have "log 2 (m * 2) = log 2 m + 1" and "log 2 m < 0"
    by (simp_all add: log_mult)
  then have a: "\<lfloor>log 2 (m * 2)\<rfloor> = \<lfloor>log 2 m\<rfloor> + 1" and b: "\<lfloor>log 2 m\<rfloor> < 0"
    by (simp_all add: floor_less_iff)
  show "(m * 2, m) \<in> measure (\<lambda>m. nat \<bar>\<lfloor>log 2 m\<rfloor>\<bar>)"
    using b unfolding in_measure a by arith
qed

declare binExp.simps [simp del]

text \<open>
  The exponent of the last bit of the significand of the double nearest to \<open>m\<close>: 52 below
  the binary exponent of \<open>m\<close>, and \<open>- 1074\<close> throughout the subnormal range.
\<close>

definition ulpExponent :: "real \<Rightarrow> int" where
  "ulpExponent m = max (binExp m) (- 1022) - 52"

text \<open>
  The double nearest to a real number, ties to the even significand; a number that rounds
  to \<open>2 ^ 1024\<close> or beyond becomes an infinity.
\<close>

definition toDouble :: "real \<Rightarrow> double" where
  "toDouble v =
     (if v = 0 then Fin 0
      else
        (let m = \<bar>v\<bar>;
             q = 2 powi ulpExponent m;
             d = real_of_int (roundHalfEven (m / q)) * q
         in if 2 ^ 1024 \<le> d then (if v < 0 then NegInf else PosInf)
            else Fin (if v < 0 then - d else d)))"

text \<open>
  The quotient and the sum of two numbers, for non-negative operands of the quotient (the
  only ones the program divides), so that a zero divisor is \<open>+0\<close>.
\<close>

fun js_div :: "double \<Rightarrow> double \<Rightarrow> jsnum" where
  "js_div (Fin p) (Fin q) =
     (if q \<noteq> 0 then Some (toDouble (p / q))
      else if 0 < p then Some PosInf else if p < 0 then Some NegInf else None)"
| "js_div (Fin p) PosInf = Some (Fin 0)"
| "js_div (Fin p) NegInf = Some (Fin 0)"
| "js_div PosInf (Fin q) = Some (if 0 \<le> q then PosInf else NegInf)"
| "js_div NegInf (Fin q) = Some (if 0 \<le> q then NegInf else PosInf)"
| "js_div _ _ = None"

fun js_add :: "double \<Rightarrow> double \<Rightarrow> jsnum" where
  "js_add (Fin p) (Fin q) = Some (toDouble (p + q))"
| "js_add PosInf NegInf = None"
| "js_add NegInf PosInf = None"
| "js_add PosInf _ = Some PosInf"
| "js_add _ PosInf = Some PosInf"
| "js_add NegInf _ = Some NegInf"
| "js_add _ NegInf = Some NegInf"

text \<open>\<open>Math.round\<close>: the nearest integer, a tie going up.\<close>

fun js_round :: "double \<Rightarrow> double" where
  "js_round (Fin v) = Fin (real_of_int (round v))"
| "js_round v = v"

text \<open>\<open>Math.max(1, v)\<close>.\<close>

fun js_max1 :: "double \<Rightarrow> double" where
  "js_max1 (Fin v) = Fin (max 1 v)"
| "js_max1 PosInf = PosInf"
| "js_max1 NegInf = Fin 1"

text \<open>
  The integers among the doubles.  All integers up to \<open>2 ^ 53\<close> in absolute value are of
  this type (lemma \<open>toDouble_int\<close>), and so is \<open>Math.round\<close> of every finite double (lemma
  \<open>toDouble_round\<close>): \<open>jsInt\<close> is the identity on them.
\<close>

typedef jsint = "{n :: int. toDouble (real_of_int n) = Fin (real_of_int n)}"
  morphisms intOf Abs_jsint
  by (rule exI [of _ 0]) (simp add: toDouble_def [of 0])

setup_lifting type_definition_jsint

lift_definition jsInt :: "int \<Rightarrow> jsint"
  is "\<lambda>n. if toDouble (real_of_int n) = Fin (real_of_int n) then n else 0"
  by (simp add: toDouble_def [of 0])


section \<open>Platform functions behind the share code\<close>

text \<open>
  The share code passes through \<open>trim\<close>, \<open>atob\<close>/\<open>btoa\<close>, the UTF-8 idioms
  \<open>decodeURIComponent(escape(\<dots>))\<close> and \<open>unescape(encodeURIComponent(\<dots>))\<close>, and
  \<open>JSON.parse\<close>/\<open>JSON.stringify\<close>.  They are modelled on JavaScript strings taken as
  sequences of UTF-16 code units.  A number literal is read as its exact value.
\<close>

type_synonym jsstring = "nat list"

definition js :: "string \<Rightarrow> jsstring" where
  "js cs = map of_char cs"

subsection \<open>\<open>String.prototype.trim\<close>\<close>

definition isWhiteSpace :: "nat \<Rightarrow> bool" where
  "isWhiteSpace c =
     (c \<in> set [0x09, 0x0A, 0x0B, 0x0C, 0x0D, 0x20, 0xA0, 0x1680, 0x2028, 0x2029, 0x202F,
               0x205F, 0x3000, 0xFEFF]
      \<or> (0x2000 \<le> c \<and> c \<le> 0x200A))"

definition trim :: "jsstring \<Rightarrow> jsstring" where
  "trim s = rev (dropWhile isWhiteSpace (rev (dropWhile isWhiteSpace s)))"

subsection \<open>Base64: \<open>btoa\<close> and \<open>atob\<close>\<close>

definition b64char :: "nat \<Rightarrow> nat" where
  "b64char n =
     (if n < 26 then n + 65
      else if n < 52 then n + 71
      else if n < 62 then n - 4
      else if n = 62 then 43
      else 47)"

definition b64value :: "nat \<Rightarrow> nat option" where
  "b64value c =
     (if 65 \<le> c \<and> c \<le> 90 then Some (c - 65)
      else if 97 \<le> c \<and> c \<le> 122 then Some (c - 71)
      else if 48 \<le> c \<and> c \<le> 57 then Some (c + 4)
      else if c = 43 then Some 62
      else if c = 47 then Some 63
      else None)"

text \<open>Three bytes make four six-bit groups; a last group of one or two bytes is padded
  with zero bits.\<close>

fun sextets :: "nat list \<Rightarrow> nat list" where
  "sextets (b0 # b1 # b2 # bs) =
     [b0 div 4, (b0 mod 4) * 16 + b1 div 16, (b1 mod 16) * 4 + b2 div 64, b2 mod 64] @ sextets bs"
| "sextets [b0, b1] = [b0 div 4, (b0 mod 4) * 16 + b1 div 16, (b1 mod 16) * 4]"
| "sextets [b0] = [b0 div 4, (b0 mod 4) * 16]"
| "sextets [] = []"

text \<open>Four six-bit groups make three bytes; the bits left over at the end are dropped.\<close>

fun octets :: "nat list \<Rightarrow> nat list" where
  "octets (s0 # s1 # s2 # s3 # ss) =
     [s0 * 4 + s1 div 16, (s1 mod 16) * 16 + s2 div 4, (s2 mod 4) * 64 + s3] @ octets ss"
| "octets [s0, s1, s2] = [s0 * 4 + s1 div 16, (s1 mod 16) * 16 + s2 div 4]"
| "octets [s0, s1] = [s0 * 4 + s1 div 16]"
| "octets _ = []"

definition btoa :: "jsstring \<Rightarrow> error + jsstring" where
  "btoa s =
     (if list_ex (\<lambda>c. 255 < c) s then Inl InvalidCharacterError
      else Inr (map b64char (sextets s) @ replicate ((3 - length s mod 3) mod 3) 61))"

definition isAsciiWhitespace :: "nat \<Rightarrow> bool" where
  "isAsciiWhitespace c = (c \<in> set [0x09, 0x0A, 0x0C, 0x0D, 0x20])"

definition stripPadding :: "jsstring \<Rightarrow> jsstring" where
  "stripPadding d =
     (case rev d of
        [] \<Rightarrow> d
      | [c1] \<Rightarrow> if c1 = 61 then [] else d
      | c1 # c2 # rest \<Rightarrow>
          if c1 = 61 \<and> c2 = 61 then rev rest
          else if c1 = 61 then rev (c2 # rest)
          else d)"

text \<open>The forgiving-base64 decode of \<open>atob\<close>.\<close>

definition atob :: "jsstring \<Rightarrow> error + jsstring" where
  "atob s =
     (let d = filter (\<lambda>c. \<not> isAsciiWhitespace c) s;
          d = (if length d mod 4 = 0 then stripPadding d else d)
      in if length d mod 4 = 1 then Inl InvalidCharacterError
         else if list_ex (\<lambda>c. b64value c = None) d then Inl InvalidCharacterError
         else Inr (octets (List.map_filter b64value d)))"

subsection \<open>UTF-8\<close>

definition isCont :: "nat \<Rightarrow> bool" where
  "isCont c = (128 \<le> c \<and> c < 192)"

text \<open>\<open>decodeURIComponent(escape(bytes))\<close>: the bytes are decoded as UTF-8 into code units;
  \<open>None\<close> is the \<open>URIError\<close> of a malformed sequence.\<close>

fun utf8Decode :: "nat list \<Rightarrow> jsstring option" where
  "utf8Decode [] = Some []"
| "utf8Decode (b0 # bs) =
     (if b0 < 128 then map_option (Cons b0) (utf8Decode bs)
      else if 194 \<le> b0 \<and> b0 < 224 then
        (case bs of
           b1 # rest \<Rightarrow>
             if isCont b1
             then map_option (Cons ((b0 - 192) * 64 + (b1 - 128))) (utf8Decode rest)
             else None
         | _ \<Rightarrow> None)
      else if 224 \<le> b0 \<and> b0 < 240 then
        (case bs of
           b1 # b2 # rest \<Rightarrow>
             (let cp = (b0 - 224) * 4096 + (b1 - 128) * 64 + (b2 - 128) in
              if isCont b1 \<and> isCont b2 \<and> 2048 \<le> cp \<and> \<not> (55296 \<le> cp \<and> cp < 57344)
              then map_option (Cons cp) (utf8Decode rest)
              else None)
         | _ \<Rightarrow> None)
      else if 240 \<le> b0 \<and> b0 < 245 then
        (case bs of
           b1 # b2 # b3 # rest \<Rightarrow>
             (let cp = (b0 - 240) * 262144 + (b1 - 128) * 4096 + (b2 - 128) * 64 + (b3 - 128) in
              if isCont b1 \<and> isCont b2 \<and> isCont b3 \<and> 65536 \<le> cp \<and> cp < 1114112
              then map_option
                     (\<lambda>units. (55296 + (cp - 65536) div 1024) # (56320 + (cp - 65536) mod 1024) # units)
                     (utf8Decode rest)
              else None)
         | _ \<Rightarrow> None)
      else None)"

text \<open>\<open>unescape(encodeURIComponent(s))\<close>: the UTF-8 bytes of the string; \<open>None\<close> is the
  \<open>URIError\<close> of a lone surrogate.\<close>

fun utf8Encode :: "jsstring \<Rightarrow> nat list option" where
  "utf8Encode [] = Some []"
| "utf8Encode (c # cs) =
     (if c < 128 then map_option (Cons c) (utf8Encode cs)
      else if c < 2048 then
        map_option (\<lambda>bytes. (192 + c div 64) # (128 + c mod 64) # bytes) (utf8Encode cs)
      else if 55296 \<le> c \<and> c < 56320 then
        (case cs of
           d # rest \<Rightarrow>
             if 56320 \<le> d \<and> d < 57344 then
               (let cp = 65536 + (c - 55296) * 1024 + (d - 56320) in
                map_option
                  (\<lambda>bytes. (240 + cp div 262144) # (128 + (cp div 4096) mod 64) #
                            (128 + (cp div 64) mod 64) # (128 + cp mod 64) # bytes)
                  (utf8Encode rest))
             else None
         | [] \<Rightarrow> None)
      else if 56320 \<le> c \<and> c < 57344 then None
      else
        map_option
          (\<lambda>bytes. (224 + c div 4096) # (128 + (c div 64) mod 64) # (128 + c mod 64) # bytes)
          (utf8Encode cs))"

subsection \<open>\<open>JSON.parse\<close>\<close>

datatype json =
    JNull
  | JBool bool
  | JNum double
  | JStr jsstring
  | JArr "json list"
  | JObj "(jsstring \<times> json) list"

definition isJsonWs :: "nat \<Rightarrow> bool" where
  "isJsonWs c = (c = 0x20 \<or> c = 0x09 \<or> c = 0x0A \<or> c = 0x0D)"

definition skipWs :: "jsstring \<Rightarrow> jsstring" where
  "skipWs cs = dropWhile isJsonWs cs"

definition isDigit :: "nat \<Rightarrow> bool" where
  "isDigit c = (48 \<le> c \<and> c \<le> 57)"

definition hexVal :: "nat \<Rightarrow> nat option" where
  "hexVal c =
     (if 48 \<le> c \<and> c \<le> 57 then Some (c - 48)
      else if 65 \<le> c \<and> c \<le> 70 then Some (c - 55)
      else if 97 \<le> c \<and> c \<le> 102 then Some (c - 87)
      else None)"

text \<open>The escapes of one character: \<open>\\" \\\\ \\/ \\b \\f \\n \\r \\t\<close>.\<close>

definition simpleEscape :: "nat \<Rightarrow> nat option" where
  "simpleEscape e =
     (if e = 34 \<or> e = 92 \<or> e = 47 then Some e
      else if e = 98 then Some 8
      else if e = 102 then Some 12
      else if e = 110 then Some 10
      else if e = 114 then Some 13
      else if e = 116 then Some 9
      else None)"

definition hex4 :: "nat \<Rightarrow> nat \<Rightarrow> nat \<Rightarrow> nat \<Rightarrow> nat option" where
  "hex4 h1 h2 h3 h4 =
     (case (hexVal h1, hexVal h2, hexVal h3, hexVal h4) of
        (Some d1, Some d2, Some d3, Some d4) \<Rightarrow> Some (((d1 * 16 + d2) * 16 + d3) * 16 + d4)
      | _ \<Rightarrow> None)"

text \<open>The characters of a string literal after its opening quote, up to the closing one.\<close>

fun parseString :: "jsstring \<Rightarrow> jsstring \<Rightarrow> (jsstring \<times> jsstring) option" where
  "parseString [] acc = None"
| "parseString (c # cs) acc =
     (if c = 34 then Some (acc, cs)
      else if c = 92 then
        (case cs of
           [] \<Rightarrow> None
         | e # rest \<Rightarrow>
             if e = 117 then
               (case rest of
                  h1 # h2 # h3 # h4 # rest' \<Rightarrow>
                    (case hex4 h1 h2 h3 h4 of
                       Some u \<Rightarrow> parseString rest' (acc @ [u])
                     | None \<Rightarrow> None)
                | _ \<Rightarrow> None)
             else
               (case simpleEscape e of
                  Some ch \<Rightarrow> parseString rest (acc @ [ch])
                | None \<Rightarrow> None))
      else if c < 32 then None
      else parseString cs (acc @ [c]))"

definition digitsVal :: "jsstring \<Rightarrow> nat" where
  "digitsVal ds = foldl (\<lambda>acc c. 10 * acc + (c - 48)) 0 ds"

text \<open>The optional fraction \<open>.digits\<close> of a number.\<close>

definition parseFraction :: "jsstring \<Rightarrow> (real \<times> jsstring) option" where
  "parseFraction cs =
     (case cs of
        [] \<Rightarrow> Some (0, cs)
      | c # rest \<Rightarrow>
          if c = 46 then
            (let ds = takeWhile isDigit rest in
             if ds = [] then None
             else Some (real (digitsVal ds) / 10 ^ length ds, dropWhile isDigit rest))
          else Some (0, cs))"

text \<open>The optional exponent \<open>e\<close> or \<open>E\<close>, sign, digits.\<close>

definition parseExponent :: "jsstring \<Rightarrow> (int \<times> jsstring) option" where
  "parseExponent cs =
     (case cs of
        [] \<Rightarrow> Some (0, cs)
      | c # rest \<Rightarrow>
          if c = 101 \<or> c = 69 then
            (let (neg, rest) =
                   (case rest of
                      [] \<Rightarrow> (False, rest)
                    | sg # rest' \<Rightarrow>
                        if sg = 45 then (True, rest')
                        else if sg = 43 then (False, rest')
                        else (False, rest));
                 ds = takeWhile isDigit rest
             in if ds = [] then None
                else Some (if neg then - int (digitsVal ds) else int (digitsVal ds),
                           dropWhile isDigit rest))
          else Some (0, cs))"

definition scale10 :: "real \<Rightarrow> int \<Rightarrow> real" where
  "scale10 m e = (if 0 \<le> e then m * 10 ^ nat e else m / 10 ^ nat (- e))"

text \<open>
  A number literal: sign, integer part, fraction, exponent.  Its value is the double
  nearest to the number written.
\<close>

definition parseNumber :: "jsstring \<Rightarrow> (double \<times> jsstring) option" where
  "parseNumber cs =
     (let (neg, cs1) =
            (case cs of
               [] \<Rightarrow> (False, cs)
             | c # rest \<Rightarrow> if c = 45 then (True, rest) else (False, cs));
          ip = takeWhile isDigit cs1
      in if ip = [] \<or> (hd ip = 48 \<and> 1 < length ip) then None
         else
           (case parseFraction (dropWhile isDigit cs1) of
              None \<Rightarrow> None
            | Some (fr, cs2) \<Rightarrow>
                (case parseExponent cs2 of
                   None \<Rightarrow> None
                 | Some (ex, cs3) \<Rightarrow>
                     Some (toDouble (scale10 ((if neg then - 1 else 1) * (real (digitsVal ip) + fr)) ex),
                           cs3))))"

definition withFirst :: "('a \<Rightarrow> 'b) \<Rightarrow> ('a \<times> 'c) option \<Rightarrow> ('b \<times> 'c) option" where
  "withFirst f res = map_option (\<lambda>(v, rest). (f v, rest)) res"

text \<open>
  A value, the elements of an array, and the members of an object, each returned with the
  rest of the input.  Every value consumes at least one character; the tests on the length
  of the rest state this where the recursion continues behind a value, and they never fail
  (lemmas \<open>parseElements_unguarded\<close> and \<open>parseMembers_unguarded\<close>).
\<close>

function parseValue :: "jsstring \<Rightarrow> (json \<times> jsstring) option"
  and parseElements :: "jsstring \<Rightarrow> json list \<Rightarrow> (json list \<times> jsstring) option"
  and parseMembers :: "jsstring \<Rightarrow> (jsstring \<times> json) list \<Rightarrow> ((jsstring \<times> json) list \<times> jsstring) option"
where
  "parseValue cs =
     (case skipWs cs of
        [] \<Rightarrow> None
      | c # rest \<Rightarrow>
          if c = 123 then
            (case skipWs rest of
               [] \<Rightarrow> None
             | c' # rest' \<Rightarrow>
                 if c' = 125 then Some (JObj [], rest')
                 else withFirst JObj (parseMembers rest []))
          else if c = 91 then
            (case skipWs rest of
               [] \<Rightarrow> None
             | c' # rest' \<Rightarrow>
                 if c' = 93 then Some (JArr [], rest')
                 else withFirst JArr (parseElements rest []))
          else if c = 34 then withFirst JStr (parseString rest [])
          else if take 4 (c # rest) = js ''true'' then Some (JBool True, drop 4 (c # rest))
          else if take 5 (c # rest) = js ''false'' then Some (JBool False, drop 5 (c # rest))
          else if take 4 (c # rest) = js ''null'' then Some (JNull, drop 4 (c # rest))
          else withFirst JNum (parseNumber (c # rest)))"
| "parseElements cs acc =
     (case parseValue cs of
        None \<Rightarrow> None
      | Some (v, rest) \<Rightarrow>
          if length rest < length cs then
            (case skipWs rest of
               [] \<Rightarrow> None
             | c # rest' \<Rightarrow>
                 if c = 44 then parseElements rest' (acc @ [v])
                 else if c = 93 then Some (acc @ [v], rest')
                 else None)
          else None)"
| "parseMembers cs acc =
     (case skipWs cs of
        [] \<Rightarrow> None
      | c # rest \<Rightarrow>
          if c = 34 then
            (case parseString rest [] of
               None \<Rightarrow> None
             | Some (key, rest1) \<Rightarrow>
                 (case skipWs rest1 of
                    [] \<Rightarrow> None
                  | c1 # rest2 \<Rightarrow>
                      if c1 = 58 then
                        (case parseValue rest2 of
                           None \<Rightarrow> None
                         | Some (v, rest3) \<Rightarrow>
                             if length rest3 < length rest2 then
                               (case skipWs rest3 of
                                  [] \<Rightarrow> None
                                | c3 # rest4 \<Rightarrow>
                                    if c3 = 44 then parseMembers rest4 (acc @ [(key, v)])
                                    else if c3 = 125 then Some (acc @ [(key, v)], rest4)
                                    else None)
                             else None)
                      else None))
          else None)"
  by pat_completeness auto
termination
proof -
  have ws: "length rest < length cs" if "skipWs cs = c # rest" for cs c and rest :: jsstring
  proof -
    have "length (skipWs cs) \<le> length cs"
      unfolding skipWs_def by (rule length_dropWhile_le)
    with that show ?thesis by simp
  qed
  have ps: "length rest < length cs" if "parseString cs acc = Some (key, rest)" for cs acc key rest
  proof -
    have "\<forall>acc. parseString cs acc = Some (key, rest) \<longrightarrow> length rest < length cs"
    proof (induction cs rule: length_induct)
      case (1 cs)
      have ih: "length rest < length ys"
        if "parseString ys acc' = Some (key, rest)" and "length ys < length cs" for ys acc'
        using 1 that by blast
      show ?case
      proof (cases cs)
        case Nil
        then show ?thesis by simp
      next
        case (Cons c cs')
        show ?thesis
        proof (intro allI impI)
          fix acc assume "parseString cs acc = Some (key, rest)"
          with Cons show "length rest < length cs"
            by (auto split: if_splits list.splits option.splits dest!: ih)
        qed
      qed
    qed
    with that show ?thesis by blast
  qed
  show ?thesis
    apply (relation "measure (\<lambda>arg. case arg of
               Inl cs \<Rightarrow> 2 * length cs
             | Inr (Inl (cs, acc)) \<Rightarrow> 2 * length cs + 1
             | Inr (Inr (cs, acc)) \<Rightarrow> 2 * length cs + 1)")
    subgoal by simp
    subgoal by (auto dest: ws)
    subgoal by (auto dest: ws)
    subgoal by simp
    subgoal by (auto dest: ws)
    subgoal by (auto dest!: ws ps)
    subgoal by (auto dest!: ws ps)
    done
qed

declare parseValue.simps [simp del] parseElements.simps [simp del] parseMembers.simps [simp del]

text \<open>\<open>JSON.parse\<close>: one value, with nothing but white space after it.\<close>

definition JSON_parse :: "jsstring \<Rightarrow> error + json" where
  "JSON_parse text =
     (case parseValue text of
        None \<Rightarrow> Inl SyntaxError
      | Some (v, rest) \<Rightarrow> if skipWs rest = [] then Inr v else Inl SyntaxError)"

text \<open>
  Reading a property of the parsed value, \<open>None\<close> for \<open>undefined\<close>.  An object gives
  the value of the last member with that key.  The handler reads the names \<open>v\<close>,
  \<open>pixelsAcross\<close>, \<open>genesisX\<close>, \<open>genesisY\<close> and \<open>zoom\<close> only, none of which an array has.
\<close>

fun getProp :: "json \<Rightarrow> jsstring \<Rightarrow> json option" where
  "getProp (JObj members) name = map_option snd (find (\<lambda>(key, value). key = name) (rev members))"
| "getProp other name = None"

text \<open>\<open>data && typeof data === "object"\<close>: \<open>null\<close> is falsy, arrays are objects.\<close>

fun isObject :: "json \<Rightarrow> bool" where
  "isObject (JObj members) = True"
| "isObject (JArr elements) = True"
| "isObject other = False"

text \<open>The property when \<open>typeof\<close> it is \<open>"number"\<close>.\<close>

definition numberProp :: "json \<Rightarrow> jsstring \<Rightarrow> double option" where
  "numberProp data name = (case getProp data name of Some (JNum n) \<Rightarrow> Some n | _ \<Rightarrow> None)"

subsection \<open>\<open>JSON.stringify\<close> of the settings payload\<close>

text \<open>
  The decimal digits of an integer, as \<open>JSON.stringify\<close> prints an integer below \<open>2 ^ 53\<close> in
  absolute value.
\<close>

function showNat :: "nat \<Rightarrow> jsstring" where
  "showNat n = (if n < 10 then [48 + n] else showNat (n div 10) @ [48 + n mod 10])"
  by pat_completeness auto
termination
  by (relation "measure id") auto

declare showNat.simps [simp del]

definition showInt :: "int \<Rightarrow> jsstring" where
  "showInt i = (if i < 0 then 45 # showNat (nat (- i)) else showNat (nat i))"

section \<open>Application state\<close>

text \<open>
  A loaded \<open>HTMLImageElement\<close>.  Its \<open>naturalWidth\<close> and \<open>naturalHeight\<close> are of type
  \<open>unsigned long\<close>, integers below \<open>2 ^ 32\<close>.  The canvas resampling is done by the browser, so it is
  a parameter of the image: \<open>drawn im W H k\<close> is byte \<open>k\<close> of
  \<open>octx.getImageData(0, 0, W, H).data\<close> after \<open>octx.drawImage(img, 0, 0, W, H)\<close>.
\<close>

record image_element =
  naturalWidth :: nat
  naturalHeight :: nat
  drawn :: "int \<Rightarrow> int \<Rightarrow> nat \<Rightarrow> int"

text \<open>
  The origin inputs store a number, or the text \<open>''\<close> or \<open>'-'\<close> while the user is typing
  (the only strings their \<open>onChange\<close> handlers store).  The number is the \<open>parseInt\<close> of a
  string of digits or the \<open>Math.round\<close> of an imported number: an integer, or an infinity.
\<close>

datatype genesis = GNum jsint | GPosInf | GNegInf | GEmpty | GDash

record 'a xy =
  x :: 'a
  y :: 'a

text \<open>
  The component state that the handlers below read or write.  The flags that only steer
  the presentation (intro dialog, lock icons of the sliders, palette panel) are left out.
\<close>

record app_state =
  img :: "image_element option"
  pixelsAcross :: int
  zoom :: int
  genesisX :: genesis
  genesisY :: genesis
  gridW :: int
  gridH :: int
  gridColors :: "string list"
  hover :: "int xy"
  dragOffset :: "real xy"
  isDragging :: bool
  dragStart :: "real xy"
  shareCode :: jsstring
  mousePx :: "real xy"
  paletteEnabled :: flags
  lockPalette :: bool

definition initialState :: app_state where
  "initialState =
     \<lparr> img = None, pixelsAcross = 100, zoom = 8,
       genesisX = GNum (jsInt 0), genesisY = GNum (jsInt 0),
       gridW = 0, gridH = 0, gridColors = [],
       hover = \<lparr> x = - 1, y = - 1 \<rparr>, dragOffset = \<lparr> x = 0, y = 0 \<rparr>,
       isDragging = False, dragStart = \<lparr> x = 0, y = 0 \<rparr>, shareCode = [],
       mousePx = \<lparr> x = 0, y = 0 \<rparr>,
       paletteEnabled = initialPaletteEnabled, lockPalette = False \<rparr>"

section \<open>Quantizing the image\<close>

text \<open>The cell indices \<open>y * W + x\<close> in the order of the two nested loops.\<close>

definition cellsOf :: "int \<Rightarrow> int \<Rightarrow> nat list" where
  "cellsOf W H = concat (map (\<lambda>row. map (\<lambda>col. row * nat W + col) [0 ..< nat W]) [0 ..< nat H])"

fun quantizeCells :: "flags \<Rightarrow> (nat \<Rightarrow> int) \<Rightarrow> nat list \<Rightarrow> error + string list" where
  "quantizeCells en data [] = Inr []"
| "quantizeCells en data (k # ks) =
     (case pickNearest en \<lparr> r = data (k * 4), g = data (k * 4 + 1), b = data (k * 4 + 2) \<rparr> of
        Inl e \<Rightarrow> Inl e
      | Inr colour \<Rightarrow>
          (case quantizeCells en data ks of
             Inl e \<Rightarrow> Inl e
           | Inr colours \<Rightarrow> Inr (colour # colours)))"

text \<open>
  \<open>processImage\<close>.  The aspect ratio and the row count are quotients of doubles; with a
  zero width or height they are \<open>0\<close>, \<open>Infinity\<close> or \<open>NaN\<close>.  With a row count of \<open>Infinity\<close> or
  \<open>NaN\<close> the call \<open>getImageData(0, 0, W, H)\<close> raises (its arguments must be finite and
  non-zero); the exception leaves the effect, which is the \<open>CanvasError\<close> result.
\<close>

definition processImage :: "app_state \<Rightarrow> error + app_state" where
  "processImage s =
     (case img s of
        None \<Rightarrow> Inr s
      | Some im \<Rightarrow>
          (let aspect = js_div (Fin (real (naturalWidth im))) (Fin (real (naturalHeight im)));
               W = max 1 (round (real_of_int (pixelsAcross s)));
               H = map_option (\<lambda>q. js_max1 (js_round q))
                     (Option.bind aspect (js_div (Fin (real_of_int W))))
           in case H of
                Some (Fin h) \<Rightarrow>
                  (case quantizeCells (paletteEnabled s) (drawn im W \<lfloor>h\<rfloor>) (cellsOf W \<lfloor>h\<rfloor>) of
                     Inl e \<Rightarrow> Inl e
                   | Inr colors \<Rightarrow> Inr (s\<lparr> gridW := W, gridH := \<lfloor>h\<rfloor>, gridColors := colors \<rparr>))
              | _ \<Rightarrow> Inl CanvasError))"

section \<open>Pointer handlers and the coordinate readout\<close>

text \<open>
  A mouse event on the stage, with the stage's bounding box as
  \<open>e.currentTarget.getBoundingClientRect()\<close> returns it.
\<close>

record mouse_event =
  clientX :: real
  clientY :: real
  rectLeft :: real
  rectTop :: real

text \<open>
  \<open>Math.floor(px / zoom)\<close>.  With \<open>zoom = 0\<close> the quotient is an infinity or \<open>NaN\<close>, which
  fails the range test of \<open>onMouseMove\<close> and gives the sentinel; \<open>None\<close> stands for it.
\<close>

definition cellIndex :: "real \<Rightarrow> int \<Rightarrow> int option" where
  "cellIndex px zm = (if zm = 0 then None else Some \<lfloor>px / real_of_int zm\<rfloor>)"

definition onMouseMove :: "app_state \<Rightarrow> mouse_event \<Rightarrow> app_state" where
  "onMouseMove s e =
     (if isDragging s then
        (let deltaX = clientX e - x (dragStart s);
             deltaY = clientY e - y (dragStart s)
         in s\<lparr> dragOffset := \<lparr> x = x (dragOffset s) + deltaX, y = y (dragOffset s) + deltaY \<rparr>,
               dragStart := \<lparr> x = clientX e, y = clientY e \<rparr> \<rparr>)
      else
        (let pxX = clientX e - rectLeft e;
             pxY = clientY e - rectTop e
         in case (cellIndex pxX (zoom s), cellIndex pxY (zoom s)) of
              (Some cx, Some cy) \<Rightarrow>
                if cx \<ge> 0 \<and> cy \<ge> 0 \<and> cx < gridW s \<and> cy < gridH s
                then s\<lparr> mousePx := \<lparr> x = pxX, y = pxY \<rparr>, hover := \<lparr> x = cx, y = cy \<rparr> \<rparr>
                else s\<lparr> mousePx := \<lparr> x = pxX, y = pxY \<rparr>, hover := \<lparr> x = - 1, y = - 1 \<rparr> \<rparr>
            | _ \<Rightarrow> s\<lparr> mousePx := \<lparr> x = pxX, y = pxY \<rparr>, hover := \<lparr> x = - 1, y = - 1 \<rparr> \<rparr>))"

definition onMouseLeave :: "app_state \<Rightarrow> app_state" where
  "onMouseLeave s = s\<lparr> hover := \<lparr> x = - 1, y = - 1 \<rparr>, mousePx := \<lparr> x = 0, y = 0 \<rparr> \<rparr>"

definition onMouseDown :: "app_state \<Rightarrow> mouse_event \<Rightarrow> app_state" where
  "onMouseDown s e = s\<lparr> isDragging := True, dragStart := \<lparr> x = clientX e, y = clientY e \<rparr> \<rparr>"

definition onMouseUp :: "app_state \<Rightarrow> app_state" where
  "onMouseUp s = s\<lparr> isDragging := False \<rparr>"

definition zoomIn :: "app_state \<Rightarrow> app_state" where
  "zoomIn s = s\<lparr> zoom := min 64 (zoom s + 1) \<rparr>"

definition zoomOut :: "app_state \<Rightarrow> app_state" where
  "zoomOut s = s\<lparr> zoom := max 1 (zoom s - 1) \<rparr>"

text \<open>\<open>Number(genesis) || 0\<close>: the empty text converts to \<open>0\<close>, \<open>'-'\<close> to \<open>NaN\<close>.\<close>

fun numberOr0 :: "genesis \<Rightarrow> double" where
  "numberOr0 (GNum n) = Fin (real_of_int (intOf n))"
| "numberOr0 GPosInf = PosInf"
| "numberOr0 GNegInf = NegInf"
| "numberOr0 GEmpty = Fin 0"
| "numberOr0 GDash = Fin 0"

text \<open>
  The hover tooltip: the world coordinates and the colour text that follows them, shown
  while a cell is hovered and no drag is in progress.  An array read outside the grid
  prints as \<open>undefined\<close>.
\<close>

record readout =
  worldX :: jsnum
  worldY :: jsnum
  colourText :: string

definition colourAt :: "string list \<Rightarrow> int \<Rightarrow> string" where
  "colourAt colors k =
     (if 0 \<le> k \<and> k < int (length colors) then colors ! nat k else ''undefined'')"

definition tooltip :: "app_state \<Rightarrow> readout option" where
  "tooltip s =
     (if x (hover s) \<ge> 0 \<and> \<not> isDragging s then
        Some \<lparr> worldX = js_add (numberOr0 (genesisX s)) (Fin (real_of_int (x (hover s)))),
               worldY = js_add (numberOr0 (genesisY s)) (Fin (real_of_int (y (hover s)))),
               colourText =
                 (if gridW s \<noteq> 0 \<and> gridH s \<noteq> 0
                  then '' '' @ colourAt (gridColors s) (y (hover s) * gridW s + x (hover s))
                  else '''') \<rparr>
      else None)"

section \<open>Palette controls\<close>

text \<open>
  \<open>next[idx] = !next[idx]\<close> on the copy \<open>[...prev]\<close>.  JavaScript arrays have no bounds:
  a write at or past the length extends the array, the skipped positions staying holes;
  a write at a negative index sets a property that is no element of the array, so the
  sequence of elements is unchanged.  A read outside the array gives \<open>undefined\<close>.
\<close>

definition arrayGet :: "flags \<Rightarrow> nat \<Rightarrow> bool option" where
  "arrayGet prev i = (if i < length prev then prev ! i else None)"

definition arraySet :: "flags \<Rightarrow> nat \<Rightarrow> bool option \<Rightarrow> flags" where
  "arraySet prev i v =
     (if i < length prev then prev[i := v]
      else prev @ replicate (i - length prev) None @ [v])"

definition toggled :: "flags \<Rightarrow> int \<Rightarrow> flags" where
  "toggled prev idx =
     (if idx < 0 then prev
      else arraySet prev (nat idx) (Some (\<not> truthy (arrayGet prev (nat idx)))))"

definition toggleColour :: "app_state \<Rightarrow> int \<Rightarrow> app_state" where
  "toggleColour s idx =
     (if lockPalette s then s
      else s\<lparr> paletteEnabled := toggled (paletteEnabled s) idx \<rparr>)"

definition applyBaseSet :: "app_state \<Rightarrow> app_state" where
  "applyBaseSet s =
     (if lockPalette s then s
      else s\<lparr> paletteEnabled := map (\<lambda>hex. Some (hex \<in> set BASE_SET)) PALETTE \<rparr>)"

definition enableFullSet :: "app_state \<Rightarrow> app_state" where
  "enableFullSet s =
     (if lockPalette s then s
      else s\<lparr> paletteEnabled := replicate (length PALETTE) (Some True) \<rparr>)"

section \<open>Share and import of the settings\<close>

text \<open>
  \<open>JSON.stringify\<close> of an origin.  An infinity prints as \<open>null\<close>.  An integer prints as its
  decimal digits; from \<open>2 ^ 53\<close> on \<open>JSON.stringify\<close> prints the shortest digits that read back
  as the same double, in exponent notation from \<open>10 ^ 21\<close> on, where the text here is the
  whole decimal expansion: it reads back as the same double as well.
\<close>

fun showGenesis :: "genesis \<Rightarrow> jsstring" where
  "showGenesis (GNum n) = showInt (intOf n)"
| "showGenesis GPosInf = js ''null''"
| "showGenesis GNegInf = js ''null''"
| "showGenesis GEmpty = js ''\"\"''"
| "showGenesis GDash = js ''\"-\"''"

text \<open>\<open>JSON.stringify(payload)\<close> for the payload
  \<open>{ v: 1, pixelsAcross, genesisX, genesisY, zoom }\<close>.\<close>

definition payloadJson :: "app_state \<Rightarrow> jsstring" where
  "payloadJson s =
     js ''{\"v\":1,\"pixelsAcross\":'' @ showInt (pixelsAcross s) @
     js '',\"genesisX\":'' @ showGenesis (genesisX s) @
     js '',\"genesisY\":'' @ showGenesis (genesisY s) @
     js '',\"zoom\":'' @ showInt (zoom s) @ js ''}''"

text \<open>\<open>exportSettings\<close>: an exception inside the \<open>try\<close> is swallowed and leaves the
  state as it is.  The copy to the clipboard is not part of the state.\<close>

definition exportSettings :: "app_state \<Rightarrow> app_state" where
  "exportSettings s =
     (case utf8Encode (payloadJson s) of
        None \<Rightarrow> s
      | Some bytes \<Rightarrow>
          (case btoa bytes of
             Inl e \<Rightarrow> s
           | Inr code \<Rightarrow> s\<lparr> shareCode := code \<rparr>))"

text \<open>The first two lines of the \<open>try\<close> block of \<open>applySettings\<close>.\<close>

definition decodeCode :: "jsstring \<Rightarrow> error + json" where
  "decodeCode code =
     (case atob code of
        Inl e \<Rightarrow> Inl e
      | Inr bytes \<Rightarrow>
          (case utf8Decode bytes of
             None \<Rightarrow> Inl URIError
           | Some text \<Rightarrow> JSON_parse text))"

text \<open>
  \<open>clamp(Math.round(v), lo, hi)\<close>, which is \<open>Math.max(lo, Math.min(hi, Math.round(v)))\<close>,
  and \<open>Math.round(v)\<close> as an origin, for a number \<open>v\<close> of the payload.
\<close>

fun clampRound :: "double \<Rightarrow> int \<Rightarrow> int \<Rightarrow> int" where
  "clampRound (Fin v) lo hi = clamp (round v) lo hi"
| "clampRound PosInf lo hi = max lo hi"
| "clampRound NegInf lo hi = lo"

fun roundGenesis :: "double \<Rightarrow> genesis" where
  "roundGenesis (Fin v) = GNum (jsInt (round v))"
| "roundGenesis PosInf = GPosInf"
| "roundGenesis NegInf = GNegInf"

text \<open>The four guarded setters, in the order of the source.\<close>

definition applyFields :: "app_state \<Rightarrow> json \<Rightarrow> app_state" where
  "applyFields s0 data =
     (let s1 = (case numberProp data (js ''pixelsAcross'') of
                  Some n \<Rightarrow> s0\<lparr> pixelsAcross := clampRound n 5 400 \<rparr>
                | None \<Rightarrow> s0);
          s2 = (case numberProp data (js ''genesisX'') of
                  Some n \<Rightarrow> s1\<lparr> genesisX := roundGenesis n \<rparr>
                | None \<Rightarrow> s1);
          s3 = (case numberProp data (js ''genesisY'') of
                  Some n \<Rightarrow> s2\<lparr> genesisY := roundGenesis n \<rparr>
                | None \<Rightarrow> s2)
      in (case numberProp data (js ''zoom'') of
            Some n \<Rightarrow> s3\<lparr> zoom := clampRound n 1 64 \<rparr>
          | None \<Rightarrow> s3))"

text \<open>The \<open>try\<close> block: every \<open>throw\<close> comes before the first setter.\<close>

definition trySettings :: "app_state \<Rightarrow> jsstring \<Rightarrow> error + app_state" where
  "trySettings s code =
     (case decodeCode code of
        Inl e \<Rightarrow> Inl e
      | Inr data \<Rightarrow>
          if \<not> isObject data then Inl BadPayload
          else if getProp data (js ''v'') \<noteq> Some (JNum (Fin 1)) then Inl BadVersion
          else Inr (applyFields s data))"

definition alertText :: string where
  "alertText = ''Invalid or unsupported code''"

text \<open>\<open>applySettings\<close>: the result is the \<open>alert\<close> shown, if any, and the state.\<close>

definition applySettings :: "app_state \<Rightarrow> string option \<times> app_state" where
  "applySettings s =
     (let code = trim (shareCode s) in
      if code = [] then (None, s)
      else
        (case trySettings s code of
           Inl e \<Rightarrow> (Some alertText, s)
         | Inr s' \<Rightarrow> (None, s')))"

section \<open>Specification-side definitions and example inputs\<close>

definition exampleImage :: "nat \<Rightarrow> nat \<Rightarrow> image_element" where
  "exampleImage w h = \<lparr> naturalWidth = w, naturalHeight = h, drawn = (\<lambda>W H k. 0) \<rparr>"

definition previousGrid :: app_state where
  "previousGrid = initialState\<lparr> gridW := 50, gridH := 25, gridColors := replicate 1250 ''#000000'' \<rparr>"




text \<open>The specification's \<open>screenToCell\<close>, for a \<open>W \<times> H\<close> grid.\<close>

definition spec_screenToCell :: "int \<Rightarrow> int \<Rightarrow> int \<Rightarrow> real \<Rightarrow> real \<Rightarrow> real \<Rightarrow> real \<Rightarrow> int xy" where
  "spec_screenToCell W H zm screenX screenY stageOriginX stageOriginY =
     (let cellX = \<lfloor>(screenX - stageOriginX) / real_of_int zm\<rfloor>;
          cellY = \<lfloor>(screenY - stageOriginY) / real_of_int zm\<rfloor>
      in if 0 \<le> cellX \<and> cellX < W \<and> 0 \<le> cellY \<and> cellY < H
         then \<lparr> x = cellX, y = cellY \<rparr> else \<lparr> x = - 1, y = - 1 \<rparr>)"

text \<open>A pointer position, relative to the stage's bounding box, inside
  \<open>[0, W \<sqdot> zoom) \<times> [0, H \<sqdot> zoom)\<close>.\<close>

definition insideStage :: "app_state \<Rightarrow> mouse_event \<Rightarrow> bool" where
  "insideStage s e =
     (0 \<le> clientX e - rectLeft e \<and> clientX e - rectLeft e < real_of_int (gridW s * zoom s) \<and>
      0 \<le> clientY e - rectTop e \<and> clientY e - rectTop e < real_of_int (gridH s * zoom s))"

definition eventAt :: "real \<Rightarrow> real \<Rightarrow> mouse_event" where
  "eventAt px py = \<lparr> clientX = px + 300, clientY = py + 120, rectLeft = 300, rectTop = 120 \<rparr>"

text \<open>The grid that a run of \<open>processImage\<close> leaves.\<close>

definition gridOf :: "error + app_state \<Rightarrow> error + int \<times> int \<times> string list" where
  "gridOf res = (case res of Inl e \<Rightarrow> Inl e | Inr s \<Rightarrow> Inr (gridW s, gridH s, gridColors s))"

text \<open>A key without quote, backslash or control character.\<close>

definition plainKey :: "jsstring \<Rightarrow> bool" where
  "plainKey key = (\<forall>c \<in> set key. c \<noteq> 34 \<and> c \<noteq> 92 \<and> 32 \<le> c)"

text \<open>The value that \<open>JSON.parse\<close> makes of an exported payload with numeric origin.\<close>

definition payloadValue :: "int \<Rightarrow> jsint \<Rightarrow> jsint \<Rightarrow> int \<Rightarrow> json" where
  "payloadValue p gx gy zm =
     JObj [(js ''v'', JNum (Fin 1)), (js ''pixelsAcross'', JNum (Fin (real_of_int p))),
           (js ''genesisX'', JNum (Fin (real_of_int (intOf gx)))),
           (js ''genesisY'', JNum (Fin (real_of_int (intOf gy)))),
           (js ''zoom'', JNum (Fin (real_of_int zm)))]"

text \<open>The payload passes the checks of \<open>applySettings\<close>: it is an object whose \<open>v\<close> is 1.\<close>

definition accepted :: "json \<Rightarrow> bool" where
  "accepted data = (isObject data \<and> getProp data (js ''v'') = Some (JNum (Fin 1)))"

text \<open>The initial state with a share code pasted in.\<close>

definition codeState :: "string \<Rightarrow> app_state" where
  "codeState code = initialState\<lparr> shareCode := js code \<rparr>"

text \<open>Every number of a value is a double, as it is in a value that \<open>JSON.parse\<close> returns.\<close>

fun isDouble :: "double \<Rightarrow> bool" where
  "isDouble (Fin v) = (toDouble v = Fin v)"
| "isDouble PosInf = True"
| "isDouble NegInf = True"

fun jsonDoubles :: "json \<Rightarrow> bool" where
  "jsonDoubles (JNum d) = isDouble d"
| "jsonDoubles (JArr elements) = list_all jsonDoubles elements"
| "jsonDoubles (JObj members) = list_all (\<lambda>m. jsonDoubles (snd m)) members"
| "jsonDoubles other = True"

section \<open>Rounding to a double\<close>

lemma roundHalfEven_of_int [simp]: "roundHalfEven (real_of_int n) = n"
  by (simp add: roundHalfEven_def)

lemma roundHalfEven_ge:
  assumes "real_of_int n \<le> t"
  shows "n \<le> roundHalfEven t"
proof -
  have "n \<le> \<lfloor>t\<rfloor>" using assms by (simp add: le_floor_iff)
  then show ?thesis by (auto simp: roundHalfEven_def Let_def)
qed

lemma roundHalfEven_le:
  assumes "t \<le> real_of_int n"
  shows "roundHalfEven t \<le> n"
proof (cases "t = real_of_int n")
  case True
  then show ?thesis by simp
next
  case False
  then have "t < real_of_int n" using assms by simp
  then have "\<lfloor>t\<rfloor> < n" by (simp add: floor_less_iff)
  then show ?thesis by (auto simp: roundHalfEven_def Let_def)
qed

lemma log2_bounds:
  assumes "0 < m"
  shows "2 powi \<lfloor>log 2 m\<rfloor> \<le> m" and "m < 2 powi (\<lfloor>log 2 m\<rfloor> + 1)"
proof -
  have "2 powr real_of_int \<lfloor>log 2 m\<rfloor> \<le> m \<and> m < 2 powr (real_of_int \<lfloor>log 2 m\<rfloor> + 1)"
    using floor_log_eq_powr_iff [of m 2 "\<lfloor>log 2 m\<rfloor>"] assms by simp
  then have "2 powr real_of_int \<lfloor>log 2 m\<rfloor> \<le> m" and "m < 2 powr real_of_int (\<lfloor>log 2 m\<rfloor> + 1)"
    by simp_all
  then show "2 powi \<lfloor>log 2 m\<rfloor> \<le> m" and "m < 2 powi (\<lfloor>log 2 m\<rfloor> + 1)"
    using powr_real_of_int' [of "2::real" "\<lfloor>log 2 m\<rfloor>"]
      powr_real_of_int' [of "2::real" "\<lfloor>log 2 m\<rfloor> + 1"]
    by simp_all
qed

lemma log2_eqI:
  assumes "2 powi k \<le> m" and "m < 2 powi (k + 1)"
  shows "\<lfloor>log 2 m\<rfloor> = k"
proof -
  have pos: "0 < m"
    using assms(1) zero_less_power_int [of "2::real" k] by linarith
  have "2 powr real_of_int k \<le> m \<and> m < 2 powr (real_of_int k + 1)"
    using assms powr_real_of_int' [of "2::real" k] powr_real_of_int' [of "2::real" "k + 1"]
    by simp
  then show ?thesis
    using floor_log_eq_powr_iff [of m 2 k] pos by simp
qed

lemma log2_less:
  assumes "0 < m" and "m < 2 powi k"
  shows "\<lfloor>log 2 m\<rfloor> < k"
proof (rule ccontr)
  assume "\<not> \<lfloor>log 2 m\<rfloor> < k"
  then have "k \<le> \<lfloor>log 2 m\<rfloor>" by simp
  then have "(2::real) powi k \<le> 2 powi \<lfloor>log 2 m\<rfloor>"
    by (intro power_int_increasing) simp_all
  with log2_bounds(1) [OF assms(1)] assms(2) show False by linarith
qed

lemma binExp_log:
  assumes "0 < m"
  shows "binExp m = \<lfloor>log 2 m\<rfloor>"
  using assms
proof (induction m rule: binExp.induct)
  case (1 m)
  show ?case
  proof (cases "2 \<le> m")
    case True
    then have "log 2 (m / 2) = log 2 m - 1" by (simp add: log_divide)
    then have "\<lfloor>log 2 (m / 2)\<rfloor> = \<lfloor>log 2 m\<rfloor> - 1" by simp
    moreover have "binExp (m / 2) = \<lfloor>log 2 (m / 2)\<rfloor>"
      using "1.IH"(1) "1.prems" True by simp
    ultimately show ?thesis
      using True "1.prems" by (subst binExp.simps) simp
  next
    case False
    show ?thesis
    proof (cases "m < 1")
      case True
      then have "log 2 (m * 2) = log 2 m + 1" using "1.prems" by (simp add: log_mult)
      then have "\<lfloor>log 2 (m * 2)\<rfloor> = \<lfloor>log 2 m\<rfloor> + 1" by simp
      moreover have "binExp (m * 2) = \<lfloor>log 2 (m * 2)\<rfloor>"
        using "1.IH"(2) "1.prems" False True by simp
      ultimately show ?thesis
        using True False "1.prems" by (subst binExp.simps) simp
    next
      case ge: False
      have "\<lfloor>log 2 m\<rfloor> = 0"
        using ge False by (intro log2_eqI) simp_all
      then show ?thesis
        using ge False "1.prems" by (subst binExp.simps) simp
    qed
  qed
qed

lemma ulpExponent_log: "0 < m \<Longrightarrow> ulpExponent m = max \<lfloor>log 2 m\<rfloor> (- 1022) - 52"
  by (simp add: ulpExponent_def binExp_log)

text \<open>A multiple of a power of two with at most 53 significant bits, at or above the
  least exponent, is a double.\<close>

lemma toDouble_dyadic:
  assumes n: "0 < n" "n < 2 ^ 53" and k: "- 1074 \<le> k" and fin: "real_of_int n * 2 powi k < 2 ^ 1024"
  shows "toDouble (real_of_int n * 2 powi k) = Fin (real_of_int n * 2 powi k)"
    and "toDouble (- (real_of_int n * 2 powi k)) = Fin (- (real_of_int n * 2 powi k))"
proof -
  let ?m = "real_of_int n * 2 powi k"
  have pos: "0 < ?m" using n(1) by simp
  have "?m < 2 ^ 53 * 2 powi k"
    using n(2) by (simp add: of_int_less_numeral_power_cancel_iff)
  also have "\<dots> = 2 powi (53 + k)"
    by (simp add: power_int_add)
  finally have "\<lfloor>log 2 ?m\<rfloor> < 53 + k"
    using log2_less [OF pos] by blast
  then have u: "ulpExponent ?m \<le> k"
    using k pos by (simp add: ulpExponent_log)
  define j where "j = nat (k - ulpExponent ?m)"
  have kj: "k = ulpExponent ?m + int j" using u by (simp add: j_def)
  have "?m / 2 powi ulpExponent ?m = real_of_int n * 2 powi (k - ulpExponent ?m)"
    by (simp add: power_int_diff)
  also have "\<dots> = real_of_int (n * 2 ^ j)"
    using u by (simp add: j_def power_int_def)
  finally have q: "?m / 2 powi ulpExponent ?m = real_of_int (n * 2 ^ j)" .
  have undo: "real_of_int (n * 2 ^ j) * 2 powi ulpExponent ?m = ?m"
    using q by (auto simp: field_simps)
  show "toDouble ?m = Fin ?m"
    using pos fin unfolding toDouble_def Let_def
    by (simp only: q roundHalfEven_of_int undo abs_of_pos) simp
  have "toDouble (- ?m) = Fin (- ?m)"
    using pos fin unfolding toDouble_def Let_def abs_minus_cancel
    by (simp only: q roundHalfEven_of_int undo abs_of_pos) simp
  then show "toDouble (- ?m) = Fin (- ?m)" .
qed


lemma toDouble_int:
  assumes "\<bar>n\<bar> \<le> 2 ^ 53"
  shows "toDouble (real_of_int n) = Fin (real_of_int n)"
proof -
  have small: "toDouble (real_of_int i) = Fin (real_of_int i)"
    and smallneg: "toDouble (- real_of_int i) = Fin (- real_of_int i)"
    if "0 < i" "i < 2 ^ 53" for i
  proof -
    have "real_of_int i < 2 ^ 53" using that(2) by (simp add: of_int_less_numeral_power_cancel_iff)
    then have "real_of_int i * 2 powi 0 < 2 ^ 1024" by simp
    from toDouble_dyadic [OF that _ this]
    show "toDouble (real_of_int i) = Fin (real_of_int i)"
      and "toDouble (- real_of_int i) = Fin (- real_of_int i)" by simp_all
  qed
  have top: "toDouble (2 ^ 53) = Fin (2 ^ 53)" and topneg: "toDouble (- (2 ^ 53)) = Fin (- (2 ^ 53))"
  proof -
    have "(0::int) < 2 ^ 52" "(2::int) ^ 52 < 2 ^ 53" "(- 1074::int) \<le> 1"
      "real_of_int (2 ^ 52) * 2 powi 1 < 2 ^ 1024" by simp_all
    from toDouble_dyadic [OF this]
    show "toDouble (2 ^ 53) = Fin (2 ^ 53)" and "toDouble (- (2 ^ 53)) = Fin (- (2 ^ 53))"
      by simp_all
  qed
  consider "n = 0" | "0 < n" "n < 2 ^ 53" | "n = 2 ^ 53" | "n < 0" "- n < 2 ^ 53" | "n = - (2 ^ 53)"
    using assms by arith
  then show ?thesis
  proof cases
    case 1
    then show ?thesis by (simp add: toDouble_def)
  next
    case 2
    then show ?thesis by (rule small)
  next
    case 3
    then show ?thesis using top by simp
  next
    case 4
    then have "0 < - n" by simp
    from smallneg [OF this 4(2)] show ?thesis by simp
  next
    case 5
    then show ?thesis using topneg by simp
  qed
qed

text \<open>The shape of a rounded value: at most 53 bits times the power of two of the last
  bit.\<close>

lemma toDouble_shape:
  assumes "v \<noteq> 0"
  shows "\<exists>n. 0 \<le> n \<and> n \<le> 2 ^ 53 \<and>
           (let d = real_of_int n * 2 powi ulpExponent \<bar>v\<bar>
            in toDouble v =
                 (if 2 ^ 1024 \<le> d then (if v < 0 then NegInf else PosInf)
                  else Fin (if v < 0 then - d else d)))"
proof -
  let ?m = "\<bar>v\<bar>"
  let ?q = "2 powi ulpExponent ?m :: real"
  let ?n = "roundHalfEven (?m / ?q)"
  have pos: "0 < ?m" using assms by simp
  have qpos: "0 < ?q" by simp
  have "0 \<le> ?m / ?q" using pos qpos by simp
  then have lo: "0 \<le> ?n" using roundHalfEven_ge [of 0 "?m / ?q"] by simp
  have "?m < 2 powi (\<lfloor>log 2 ?m\<rfloor> + 1)" using log2_bounds(2) [OF pos] .
  also have "\<dots> \<le> 2 powi (ulpExponent ?m + 53)"
    using pos by (intro power_int_increasing) (simp_all add: ulpExponent_log)
  also have "\<dots> = ?q * 2 ^ 53" by (simp add: power_int_add)
  finally have "?m / ?q < 2 ^ 53" using qpos by (simp add: pos_divide_less_eq mult.commute)
  then have "?m / ?q \<le> real_of_int (2 ^ 53)" by simp
  then have hi: "?n \<le> 2 ^ 53" by (rule roundHalfEven_le)
  have "toDouble v =
          (if 2 ^ 1024 \<le> real_of_int ?n * ?q then (if v < 0 then NegInf else PosInf)
           else Fin (if v < 0 then - (real_of_int ?n * ?q) else real_of_int ?n * ?q))"
    using assms by (simp add: toDouble_def Let_def)
  with lo hi show ?thesis unfolding Let_def by blast
qed

lemma ulpExponent_ge: "- 1074 \<le> ulpExponent m"
  by (simp add: ulpExponent_def)

lemma toDouble_idem:
  assumes "toDouble v = Fin d"
  shows "toDouble d = Fin d"
proof (cases "v = 0")
  case True
  with assms show ?thesis by (auto simp: toDouble_def [of 0])
next
  case False
  let ?k = "ulpExponent \<bar>v\<bar>"
  from toDouble_shape [OF False] assms obtain n where n: "0 \<le> n" "n \<le> 2 ^ 53"
    and fin: "real_of_int n * 2 powi ?k < 2 ^ 1024"
    and d: "d = (if v < 0 then - (real_of_int n * 2 powi ?k) else real_of_int n * 2 powi ?k)"
    unfolding Let_def by (auto split: if_splits)
  consider "n = 0" | "0 < n" "n < 2 ^ 53" | "n = 2 ^ 53" using n by linarith
  then show ?thesis
  proof cases
    case 1
    with d show ?thesis by (simp add: toDouble_def)
  next
    case 2
    from toDouble_dyadic [OF 2 ulpExponent_ge fin] d show ?thesis by auto
  next
    case 3
    have e: "real_of_int n * 2 powi ?k = real_of_int (2 ^ 52) * 2 powi (?k + 1)"
      using 3 by (simp add: power_int_add)
    have "(0::int) < 2 ^ 52" "(2::int) ^ 52 < 2 ^ 53" "- 1074 \<le> ?k + 1"
      using ulpExponent_ge [of "\<bar>v\<bar>"] by simp_all
    from toDouble_dyadic [OF this] fin d show ?thesis unfolding e by auto
  qed
qed

text \<open>\<open>Math.round\<close> of a double is a double.\<close>

lemma toDouble_round:
  assumes "toDouble v = Fin d"
  shows "toDouble (real_of_int (round d)) = Fin (real_of_int (round d))"
proof (cases "v = 0")
  case True
  with assms have "d = 0" by (auto simp: toDouble_def)
  then show ?thesis by (simp add: toDouble_def)
next
  case False
  define k where "k = ulpExponent \<bar>v\<bar>"
  from toDouble_shape [OF False] assms obtain n where n: "0 \<le> n" "n \<le> 2 ^ 53"
    and d: "d = (if v < 0 then - (real_of_int n * 2 powi k) else real_of_int n * 2 powi k)"
    unfolding Let_def k_def [symmetric] by (auto split: if_splits)
  show ?thesis
  proof (cases "0 \<le> k")
    case True
    then have "(2::real) powi k = 2 ^ nat k" by (simp add: power_int_def)
    then have "real_of_int n * 2 powi k = real_of_int (n * 2 ^ nat k)" by simp
    with d have "d = real_of_int (if v < 0 then - (n * 2 ^ nat k) else n * 2 ^ nat k)"
      by simp
    then have "real_of_int (round d) = d"
      by (metis round_of_int)
    with toDouble_idem [OF assms] show ?thesis by simp
  next
    case False
    then have "k \<le> - 1" by simp
    then have "(2::real) powi k \<le> 2 powi (- 1)"
      by (intro power_int_increasing) simp_all
    then have "(2::real) powi k \<le> 1 / 2" by (simp add: power_int_minus)
    moreover have "0 \<le> real_of_int n" "real_of_int n \<le> 2 ^ 53"
      using n by (simp_all add: of_int_le_numeral_power_cancel_iff)
    ultimately have "real_of_int n * 2 powi k \<le> 2 ^ 53 * (1 / 2)"
      by (intro mult_mono) simp_all
    moreover have "0 \<le> real_of_int n * 2 powi k" using n by simp
    ultimately have "\<bar>d\<bar> \<le> 2 ^ 52" using d by simp
    then have "- (2 ^ 52) \<le> d" "d \<le> 2 ^ 52" by linarith+
    then have "- (2 ^ 52) \<le> round d" "round d \<le> 2 ^ 52"
      using round_mono [of "- (2 ^ 52)" d] round_mono [of d "2 ^ 52"] round_of_int [of "- (2 ^ 52)"]
        round_of_int [of "2 ^ 52"] by simp_all
    then have "\<bar>round d\<bar> \<le> 2 ^ 53" by simp
    then show ?thesis by (rule toDouble_int)
  qed
qed

lemma log2_ge:
  assumes "2 powi k \<le> m"
  shows "k \<le> \<lfloor>log 2 m\<rfloor>"
proof -
  have pos: "0 < m" using assms zero_less_power_int [of "2::real" k] by linarith
  have "(2::real) powi k < 2 powi (\<lfloor>log 2 m\<rfloor> + 1)"
    using assms log2_bounds(2) [OF pos] by linarith
  then have "k < \<lfloor>log 2 m\<rfloor> + 1"
    using power_int_increasing [of "\<lfloor>log 2 m\<rfloor> + 1" k "2::real"] by (cases "k < \<lfloor>log 2 m\<rfloor> + 1") simp_all
  then show ?thesis by simp
qed


lemma toDouble_eval:
  assumes "2 powi e \<le> \<bar>v\<bar>" and "\<bar>v\<bar> < 2 powi (e + 1)" and "- 1022 \<le> e"
  shows "toDouble v =
           (let q = 2 powi (e - 52); d = real_of_int (roundHalfEven (\<bar>v\<bar> / q)) * q
            in if 2 ^ 1024 \<le> d then (if v < 0 then NegInf else PosInf)
               else Fin (if v < 0 then - d else d))"
proof -
  have "\<lfloor>log 2 \<bar>v\<bar>\<rfloor> = e" using assms(1,2) by (rule log2_eqI)
  moreover have "0 < (2::real) powi e" by simp
  then have pos: "0 < \<bar>v\<bar>" using assms(1) by linarith
  ultimately have "ulpExponent \<bar>v\<bar> = e - 52" using assms(3) by (simp add: ulpExponent_log)
  moreover have "v \<noteq> 0" using pos by simp
  ultimately show ?thesis unfolding toDouble_def Let_def by (simp only: if_False)
qed




subsection \<open>Numbers that are doubles\<close>

lemma toDouble_0 [simp]: "toDouble 0 = Fin 0"
  by (simp add: toDouble_def)

lemma toDouble_1 [simp]: "toDouble 1 = Fin 1"
  using toDouble_int [of 1] by simp

lemma toDouble_numeral [simp]:
  "numeral k \<le> (2::int) ^ 53 \<Longrightarrow> toDouble (numeral k) = Fin (numeral k)"
  using toDouble_int [of "numeral k"] by simp

lemma toDouble_neg_numeral [simp]:
  "numeral k \<le> (2::int) ^ 53 \<Longrightarrow> toDouble (- numeral k) = Fin (- numeral k)"
  using toDouble_int [of "- numeral k"] by simp

lemma toDouble_of_nat: "n \<le> 2 ^ 53 \<Longrightarrow> toDouble (real n) = Fin (real n)"
  using toDouble_int [of "int n"] by (simp add: of_nat_le_numeral_power_cancel_iff)

lemma intOf_double: "toDouble (real_of_int (intOf n)) = Fin (real_of_int (intOf n))"
  using intOf [of n] by simp

lemma intOf_jsInt: "\<bar>n\<bar> \<le> 2 ^ 53 \<Longrightarrow> intOf (jsInt n) = n"
  by (simp add: jsInt.rep_eq toDouble_int)

lemma intOf_jsInt_numeral [simp]:
  "intOf (jsInt 0) = 0" "intOf (jsInt 1) = 1"
  "numeral k \<le> (2::int) ^ 53 \<Longrightarrow> intOf (jsInt (numeral k)) = numeral k"
  "numeral k \<le> (2::int) ^ 53 \<Longrightarrow> intOf (jsInt (- numeral k)) = - numeral k"
  by (simp_all add: intOf_jsInt)

lemma jsInt_intOf [simp]: "jsInt (intOf n) = n"
  by (simp add: jsInt_def intOf_double intOf_inverse)

lemma jsInt_round:
  assumes "toDouble v = Fin d"
  shows "intOf (jsInt (round d)) = round d"
  using toDouble_round [OF assms] by (simp add: jsInt.rep_eq)

lemma toDouble_ex: "toDouble (10 / 29) = Fin (1552965388748447 / 4503599627370496)"
  by (subst toDouble_eval [where e = "- 2"]) (simp_all add: roundHalfEven_def power_int_minus Let_def)

section \<open>Nearest-colour matching\<close>

lemma belowBest_trans: "d1 < d2 \<Longrightarrow> belowBest d2 best \<Longrightarrow> belowBest d1 best"
  by (cases best) auto

lemma belowBest_between: "belowBest d1 best \<Longrightarrow> \<not> belowBest d2 best \<Longrightarrow> d1 < d2"
  by (cases best) auto

lemma nearestLoop_scan:
  assumes "\<forall>i \<in> set pool. i < length paletteLab"
  shows "\<exists>k. nearestLoop l pool best idx = Inr k \<and>
           ((k = idx \<and> (\<forall>j \<in> set pool. \<not> belowBest (labDistance l (paletteLab ! j)) best)) \<or>
            (\<exists>pre post. pool = pre @ k # post \<and>
                belowBest (labDistance l (paletteLab ! k)) best \<and>
                (\<forall>j \<in> set pre. labDistance l (paletteLab ! k) < labDistance l (paletteLab ! j)) \<and>
                (\<forall>j \<in> set post. labDistance l (paletteLab ! k) \<le> labDistance l (paletteLab ! j))))"
  using assms
proof (induction pool arbitrary: best idx)
  case Nil
  then show ?case by simp
next
  case (Cons i pool)
  let ?d = "\<lambda>j. labDistance l (paletteLab ! j)"
  have inr: "i < length paletteLab" and rest: "\<forall>j \<in> set pool. j < length paletteLab"
    using Cons.prems by auto
  show ?case
  proof (cases "belowBest (?d i) best")
    case True
    from Cons.IH [OF rest, of "Some (?d i)" i] obtain k where
      k: "nearestLoop l pool (Some (?d i)) i = Inr k" and
      alt: "(k = i \<and> (\<forall>j \<in> set pool. \<not> belowBest (?d j) (Some (?d i)))) \<or>
            (\<exists>pre post. pool = pre @ k # post \<and> belowBest (?d k) (Some (?d i)) \<and>
                (\<forall>j \<in> set pre. ?d k < ?d j) \<and> (\<forall>j \<in> set post. ?d k \<le> ?d j))"
      by blast
    have res: "nearestLoop l (i # pool) best idx = Inr k"
      using True inr k by simp
    from alt show ?thesis
    proof
      assume h: "k = i \<and> (\<forall>j \<in> set pool. \<not> belowBest (?d j) (Some (?d i)))"
      then have "i # pool = [] @ k # pool" and "\<forall>j \<in> set pool. ?d k \<le> ?d j"
        by auto
      with res True h show ?thesis by fastforce
    next
      assume "\<exists>pre post. pool = pre @ k # post \<and> belowBest (?d k) (Some (?d i)) \<and>
                (\<forall>j \<in> set pre. ?d k < ?d j) \<and> (\<forall>j \<in> set post. ?d k \<le> ?d j)"
      then obtain pre post where p: "pool = pre @ k # post" and lt: "?d k < ?d i"
        and a: "\<forall>j \<in> set pre. ?d k < ?d j" and b: "\<forall>j \<in> set post. ?d k \<le> ?d j"
        by auto
      have "i # pool = (i # pre) @ k # post" using p by simp
      moreover have "belowBest (?d k) best" using lt True by (rule belowBest_trans)
      moreover have "\<forall>j \<in> set (i # pre). ?d k < ?d j" using lt a by simp
      ultimately show ?thesis using res b by blast
    qed
  next
    case False
    from Cons.IH [OF rest, of best idx] obtain k where
      k: "nearestLoop l pool best idx = Inr k" and
      alt: "(k = idx \<and> (\<forall>j \<in> set pool. \<not> belowBest (?d j) best)) \<or>
            (\<exists>pre post. pool = pre @ k # post \<and> belowBest (?d k) best \<and>
                (\<forall>j \<in> set pre. ?d k < ?d j) \<and> (\<forall>j \<in> set post. ?d k \<le> ?d j))"
      by blast
    have res: "nearestLoop l (i # pool) best idx = Inr k"
      using False inr k by simp
    from alt show ?thesis
    proof
      assume "k = idx \<and> (\<forall>j \<in> set pool. \<not> belowBest (?d j) best)"
      with res False show ?thesis by simp
    next
      assume "\<exists>pre post. pool = pre @ k # post \<and> belowBest (?d k) best \<and>
                (\<forall>j \<in> set pre. ?d k < ?d j) \<and> (\<forall>j \<in> set post. ?d k \<le> ?d j)"
      then obtain pre post where p: "pool = pre @ k # post" and bb: "belowBest (?d k) best"
        and a: "\<forall>j \<in> set pre. ?d k < ?d j" and b: "\<forall>j \<in> set post. ?d k \<le> ?d j"
        by auto
      have "i # pool = (i # pre) @ k # post" using p by simp
      moreover have "?d k < ?d i" using bb False by (rule belowBest_between)
      then have "\<forall>j \<in> set (i # pre). ?d k < ?d j" using a by simp
      ultimately show ?thesis using res bb b by blast
    qed
  qed
qed

lemma length_paletteLab: "length paletteLab = length PALETTE"
  by (simp add: paletteLab_def paletteRGB_def)

lemma enabledIndices_sorted: "sorted (enabledIndices en)" "distinct (enabledIndices en)"
  by (simp_all add: enabledIndices_def sorted_wrt_filter)

lemma enabledIndices_bound: "i \<in> set (enabledIndices en) \<Longrightarrow> i < length en"
  by (simp add: enabledIndices_def)

lemma sorted_split_le:
  assumes "sorted (pre @ k # post)" "distinct (pre @ k # post)" "j \<in> set (pre @ k # post)" "j \<notin> set pre"
  shows "k \<le> (j::nat)"
  using assms by (auto simp: sorted_append)

lemma nearestLoop_first_min:
  assumes inr: "\<forall>i \<in> set pool. i < length paletteLab" and ne: "pool \<noteq> []"
    and so: "sorted pool" and di: "distinct pool"
  shows "\<exists>k. nearestLoop l pool None idx = Inr k \<and> k \<in> set pool \<and>
          (\<forall>j \<in> set pool. labDistance l (paletteLab ! k) \<le> labDistance l (paletteLab ! j) \<and>
             (labDistance l (paletteLab ! j) = labDistance l (paletteLab ! k) \<longrightarrow> k \<le> j))"
proof -
  let ?d = "\<lambda>j. labDistance l (paletteLab ! j)"
  from nearestLoop_scan [OF inr, of l None idx] obtain k where
    k: "nearestLoop l pool None idx = Inr k" and
    alt: "(k = idx \<and> (\<forall>j \<in> set pool. \<not> belowBest (?d j) None)) \<or>
          (\<exists>pre post. pool = pre @ k # post \<and> belowBest (?d k) None \<and>
              (\<forall>j \<in> set pre. ?d k < ?d j) \<and> (\<forall>j \<in> set post. ?d k \<le> ?d j))"
    by blast
  from ne obtain i0 where "i0 \<in> set pool" by (cases pool) auto
  then have "\<not> (\<forall>j \<in> set pool. \<not> belowBest (?d j) None)" by auto
  with alt obtain pre post where p: "pool = pre @ k # post"
    and a: "\<forall>j \<in> set pre. ?d k < ?d j" and b: "\<forall>j \<in> set post. ?d k \<le> ?d j"
    by blast
  have "k \<in> set pool" using p by simp
  moreover have "\<forall>j \<in> set pool. ?d k \<le> ?d j \<and> (?d j = ?d k \<longrightarrow> k \<le> j)"
  proof
    fix j assume j: "j \<in> set pool"
    have le: "?d k \<le> ?d j" using j p a b by auto
    have "?d j = ?d k \<longrightarrow> k \<le> j"
    proof
      assume e: "?d j = ?d k"
      then have "j \<notin> set pre" using a by auto
      with so di j show "k \<le> j" unfolding p by (rule sorted_split_le [where pre=pre and post=post])
    qed
    with le show "?d k \<le> ?d j \<and> (?d j = ?d k \<longrightarrow> k \<le> j)" by simp
  qed
  ultimately show ?thesis using k by blast
qed

lemma pickNearestIdx_pool:
  assumes "length en = length PALETTE" and "enabledIndices en \<noteq> []"
  shows "pickNearestIdx en c = nearestLoop (rgbToLab c) (enabledIndices en) None 0"
  using assms by (simp add: pickNearestIdx_def activePool_def)

lemma enabledIndices_set: "set (enabledIndices en) = {i. i < length en \<and> truthy (en ! i)}"
  by (auto simp: enabledIndices_def)

text \<open>
  Claim C1.  When the enabled vector has the palette's length and at least one of its flags
  is set, \<open>pickNearest\<close> returns the palette entry at an index whose flag is set and whose
  Lab distance to the input is at most that of every entry whose flag is set; among the
  enabled entries at that minimal distance it is the one with the lowest palette index.
\<close>

theorem pickNearest_nearest:
  assumes len: "length en = length PALETTE" and ne: "\<exists>j < length en. truthy (en ! j)"
  shows "\<exists>i < length PALETTE. pickNearest en c = Inr (PALETTE ! i) \<and> truthy (en ! i) \<and>
           (\<forall>j < length PALETTE. truthy (en ! j) \<longrightarrow>
               distTo c i \<le> distTo c j \<and> (distTo c j = distTo c i \<longrightarrow> i \<le> j))"
proof -
  have inr: "\<forall>i \<in> set (enabledIndices en). i < length paletteLab"
    using len by (auto simp: length_paletteLab dest: enabledIndices_bound)
  have pool: "enabledIndices en \<noteq> []"
    using ne enabledIndices_set [of en] by (metis (mono_tags, lifting) empty_iff list.set(1) mem_Collect_eq)
  from nearestLoop_first_min [OF inr pool enabledIndices_sorted, of "rgbToLab c" 0]
  obtain k where res: "nearestLoop (rgbToLab c) (enabledIndices en) None 0 = Inr k"
    and mem: "k \<in> set (enabledIndices en)"
    and least: "\<forall>j \<in> set (enabledIndices en).
                  distTo c k \<le> distTo c j \<and> (distTo c j = distTo c k \<longrightarrow> k \<le> j)"
    unfolding distTo_def by blast
  have k: "k < length PALETTE" "truthy (en ! k)"
    using mem len by (simp_all add: enabledIndices_set)
  have "pickNearest en c = Inr (PALETTE ! k)"
    using pickNearestIdx_pool [OF len pool, of c] res by (simp add: pickNearest_def)
  moreover have "\<forall>j < length PALETTE. truthy (en ! j) \<longrightarrow>
                   distTo c k \<le> distTo c j \<and> (distTo c j = distTo c k \<longrightarrow> k \<le> j)"
    using least len by (simp add: enabledIndices_set)
  ultimately show ?thesis using k by blast
qed

lemma initial_flag: "truthy (initialPaletteEnabled ! 0)" "0 < length initialPaletteEnabled"
  by (simp_all add: initialPaletteEnabled_def PALETTE_def BASE_SET_def)

theorem pickNearest_nearest_witness:
  "length initialPaletteEnabled = length PALETTE \<and>
   0 < length initialPaletteEnabled \<and> truthy (initialPaletteEnabled ! 0) \<and>
   (\<exists>i < length PALETTE.
        pickNearest initialPaletteEnabled \<lparr>r = 0, g = 0, b = 0\<rparr> = Inr (PALETTE ! i) \<and>
        truthy (initialPaletteEnabled ! i) \<and>
        (\<forall>j < length PALETTE. truthy (initialPaletteEnabled ! j) \<longrightarrow>
            distTo \<lparr>r = 0, g = 0, b = 0\<rparr> i \<le> distTo \<lparr>r = 0, g = 0, b = 0\<rparr> j \<and>
            (distTo \<lparr>r = 0, g = 0, b = 0\<rparr> j = distTo \<lparr>r = 0, g = 0, b = 0\<rparr> i \<longrightarrow> i \<le> j)))"
proof -
  have h1: "length initialPaletteEnabled = length PALETTE"
    by (simp add: initialPaletteEnabled_def)
  have h2: "\<exists>j < length initialPaletteEnabled. truthy (initialPaletteEnabled ! j)"
    using initial_flag by blast
  from pickNearest_nearest [OF h1 h2, of "\<lparr>r = 0, g = 0, b = 0\<rparr>"] h1 initial_flag
  show ?thesis by blast
qed

lemma enabledIndices_none:
  assumes "\<forall>f \<in> set en. \<not> truthy f"
  shows "enabledIndices en = []"
  using assms by (auto simp: enabledIndices_def filter_empty_conv)

lemma enabledIndices_all:
  assumes "\<forall>f \<in> set en. truthy f"
  shows "enabledIndices en = [0 ..< length en]"
  using assms by (auto simp: enabledIndices_def filter_id_conv)

lemma activePool_none:
  assumes "\<forall>f \<in> set en. \<not> truthy f"
  shows "activePool en = [0 ..< length PALETTE]"
  using enabledIndices_none [OF assms] by (simp add: activePool_def)

lemma activePool_all:
  assumes "length en = length PALETTE" and "\<forall>f \<in> set en. truthy f"
  shows "activePool en = [0 ..< length PALETTE]"
  using enabledIndices_all [OF assms(2)] assms(1) by (simp add: activePool_def)

lemma PALETTE_nonempty: "0 < length PALETTE"
  by (simp add: PALETTE_def)

lemma full_scan_result:
  "\<exists>i < length PALETTE. nearestLoop l [0 ..< length PALETTE] None 0 = Inr i \<and>
     (\<forall>j < length PALETTE.
        labDistance l (paletteLab ! i) \<le> labDistance l (paletteLab ! j) \<and>
        (labDistance l (paletteLab ! j) = labDistance l (paletteLab ! i) \<longrightarrow> i \<le> j))"
proof -
  have inr: "\<forall>i \<in> set [0 ..< length PALETTE]. i < length paletteLab"
    by (simp add: length_paletteLab)
  have ne: "[0 ..< length PALETTE] \<noteq> []"
    using PALETTE_nonempty by simp
  from nearestLoop_first_min [OF inr ne, of l 0]
  obtain k where "nearestLoop l [0 ..< length PALETTE] None 0 = Inr k"
    and "k \<in> set [0 ..< length PALETTE]"
    and "\<forall>j \<in> set [0 ..< length PALETTE].
           labDistance l (paletteLab ! k) \<le> labDistance l (paletteLab ! j) \<and>
           (labDistance l (paletteLab ! j) = labDistance l (paletteLab ! k) \<longrightarrow> k \<le> j)"
    by auto
  then show ?thesis by auto
qed

text \<open>
  Claim C2.  With every palette entry disabled no index is enabled and the pool of the scan
  is the whole palette in its order, so that the match is the entry nearest to the input
  among all entries of the palette, the lowest index winning a tie; it is the same colour
  as the match with every entry enabled.
\<close>

theorem fallback_law:
  assumes "length allOff = length PALETTE" and "\<forall>f \<in> set allOff. \<not> truthy f"
    and "length allOn = length PALETTE" and "\<forall>f \<in> set allOn. truthy f"
  shows "pickNearest allOff c = pickNearest allOn c \<and>
         enabledIndices allOff = [] \<and>
         activePool allOff = [0 ..< length PALETTE] \<and>
         (\<exists>i < length PALETTE. pickNearest allOff c = Inr (PALETTE ! i) \<and>
            (\<forall>j < length PALETTE.
               distTo c i \<le> distTo c j \<and> (distTo c j = distTo c i \<longrightarrow> i \<le> j)))"
proof -
  have p0: "enabledIndices allOff = []"
    using assms(2) by (rule enabledIndices_none)
  have p1: "activePool allOff = [0 ..< length PALETTE]"
    using assms(2) by (rule activePool_none)
  have p2: "activePool allOn = [0 ..< length PALETTE]"
    using assms(3,4) by (rule activePool_all)
  from full_scan_result [of "rgbToLab c"] obtain i where i: "i < length PALETTE"
    and res: "nearestLoop (rgbToLab c) [0 ..< length PALETTE] None 0 = Inr i"
    and least: "\<forall>j < length PALETTE.
                  distTo c i \<le> distTo c j \<and> (distTo c j = distTo c i \<longrightarrow> i \<le> j)"
    unfolding distTo_def by blast
  have "pickNearest allOff c = Inr (PALETTE ! i)" "pickNearest allOn c = Inr (PALETTE ! i)"
    using res p1 p2 by (simp_all add: pickNearest_def pickNearestIdx_def)
  with p0 p1 i least show ?thesis by auto
qed

theorem fallback_law_witness:
  "length (replicate (length PALETTE) (Some False)) = length PALETTE \<and>
   length (replicate (length PALETTE) (Some True)) = length PALETTE \<and>
   pickNearest (replicate (length PALETTE) (Some False)) \<lparr>r = 255, g = 0, b = 0\<rparr> =
     pickNearest (replicate (length PALETTE) (Some True)) \<lparr>r = 255, g = 0, b = 0\<rparr> \<and>
   enabledIndices (replicate (length PALETTE) (Some False)) = [] \<and>
   activePool (replicate (length PALETTE) (Some False)) = [0 ..< length PALETTE] \<and>
   (\<exists>i < length PALETTE.
      pickNearest (replicate (length PALETTE) (Some False)) \<lparr>r = 255, g = 0, b = 0\<rparr> = Inr (PALETTE ! i) \<and>
      (\<forall>j < length PALETTE.
         distTo \<lparr>r = 255, g = 0, b = 0\<rparr> i \<le> distTo \<lparr>r = 255, g = 0, b = 0\<rparr> j \<and>
         (distTo \<lparr>r = 255, g = 0, b = 0\<rparr> j = distTo \<lparr>r = 255, g = 0, b = 0\<rparr> i \<longrightarrow> i \<le> j)))"
proof -
  have h1: "length (replicate (length PALETTE) (Some False)) = length PALETTE"
    and h3: "length (replicate (length PALETTE) (Some True)) = length PALETTE"
    by simp_all
  have h2: "\<forall>f \<in> set (replicate (length PALETTE) (Some False)). \<not> truthy f"
    and h4: "\<forall>f \<in> set (replicate (length PALETTE) (Some True)). truthy f"
    by simp_all
  from fallback_law [OF h1 h2 h3 h4, of "\<lparr>r = 255, g = 0, b = 0\<rparr>"] h1 h3
  show ?thesis by blast
qed

lemma pickNearestAll_all_enabled:
  assumes "length allOn = length PALETTE" and "\<forall>f \<in> set allOn. truthy f"
  shows "pickNearestAll c = pickNearest allOn c"
  using activePool_all [OF assms]
  by (simp add: pickNearestAll_def pickNearest_def pickNearestIdx_def length_paletteLab)

section \<open>Grid size, pointer mapping and palette toggling\<close>

lemma activePool_bound:
  assumes "length en \<le> length PALETTE"
  shows "\<forall>i \<in> set (activePool en). i < length paletteLab"
  using assms by (auto simp: activePool_def length_paletteLab dest: enabledIndices_bound)

lemma pickNearest_total:
  assumes "length en \<le> length PALETTE"
  shows "\<exists>colour. pickNearest en c = Inr colour"
proof -
  from nearestLoop_scan [OF activePool_bound [OF assms], of "rgbToLab c" None 0]
  obtain k where "nearestLoop (rgbToLab c) (activePool en) None 0 = Inr k" by blast
  then show ?thesis by (simp add: pickNearest_def pickNearestIdx_def)
qed

lemma quantizeCells_total:
  assumes "length en \<le> length PALETTE"
  shows "\<exists>colours. quantizeCells en data ks = Inr colours \<and> length colours = length ks"
proof (induction ks)
  case Nil
  show ?case by simp
next
  case (Cons k ks)
  then obtain colours where c: "quantizeCells en data ks = Inr colours" "length colours = length ks"
    by blast
  from pickNearest_total [OF assms] obtain colour where
    "pickNearest en \<lparr> r = data (k * 4), g = data (k * 4 + 1), b = data (k * 4 + 2) \<rparr> = Inr colour"
    by blast
  with c show ?case by simp
qed

lemma length_cellsOf: "length (cellsOf W H) = nat W * nat H"
  by (simp add: cellsOf_def length_concat comp_def sum_list_triv)













text \<open>
  Claim C6 at its failing inputs.  With a loaded image of height 0 the previous 50 by 25
  grid is replaced by a 100 by 1 grid; with width 0 the row count is infinite (or \<open>NaN\<close>
  when both are 0) and the run ends in an exception.  Only a missing image is skipped.
\<close>

theorem processImage_zero_dimension:
  "gridW previousGrid = 50 \<and> gridH previousGrid = 25 \<and>
   (\<exists>colors. processImage (previousGrid\<lparr> img := Some (exampleImage 100 0) \<rparr>) =
       Inr (previousGrid\<lparr> img := Some (exampleImage 100 0), gridW := 100, gridH := 1, gridColors := colors \<rparr>) \<and>
       length colors = 100) \<and>
   processImage (previousGrid\<lparr> img := Some (exampleImage 0 100) \<rparr>) = Inl CanvasError \<and>
   processImage (previousGrid\<lparr> img := Some (exampleImage 0 0) \<rparr>) = Inl CanvasError"
proof -
  have en: "length (paletteEnabled previousGrid) \<le> length PALETTE"
    by (simp add: previousGrid_def initialState_def initialPaletteEnabled_def)
  from quantizeCells_total [OF en, of "\<lambda>k. 0" "cellsOf 100 1"]
  obtain colors where c: "quantizeCells (paletteEnabled previousGrid) (\<lambda>k. 0) (cellsOf 100 1) = Inr colors"
    and l: "length colors = length (cellsOf 100 1)" by blast
  have px: "pixelsAcross previousGrid = 100"
    by (simp add: previousGrid_def initialState_def)
  have "processImage (previousGrid\<lparr> img := Some (exampleImage 100 0) \<rparr>) =
       Inr (previousGrid\<lparr> img := Some (exampleImage 100 0), gridW := 100, gridH := 1, gridColors := colors \<rparr>)"
    using c px by (simp add: processImage_def exampleImage_def)
  moreover have "length colors = 100"
    using l by (simp add: length_cellsOf)
  moreover have "processImage (previousGrid\<lparr> img := Some (exampleImage 0 100) \<rparr>) = Inl CanvasError"
    using px by (simp add: processImage_def exampleImage_def)
  moreover have "processImage (previousGrid\<lparr> img := Some (exampleImage 0 0) \<rparr>) = Inl CanvasError"
    using px by (simp add: processImage_def exampleImage_def)
  moreover have "gridW previousGrid = 50 \<and> gridH previousGrid = 25"
    by (simp add: previousGrid_def)
  ultimately show ?thesis by blast
qed


lemma floor_div_range:
  assumes "1 \<le> zm"
  shows "(0 \<le> \<lfloor>px / real_of_int zm\<rfloor> \<and> \<lfloor>px / real_of_int zm\<rfloor> < W) \<longleftrightarrow>
         (0 \<le> px \<and> px < real_of_int (W * zm))"
proof -
  have z: "0 < real_of_int zm" using assms by simp
  have "0 \<le> \<lfloor>px / real_of_int zm\<rfloor> \<longleftrightarrow> 0 \<le> px"
    using z by (simp add: zero_le_divide_iff)
  moreover have "\<lfloor>px / real_of_int zm\<rfloor> < W \<longleftrightarrow> px < real_of_int (W * zm)"
    using z by (simp add: floor_less_iff pos_divide_less_eq)
  ultimately show ?thesis by simp
qed

lemma onMouseMove_idle:
  assumes "\<not> isDragging s" and "zoom s \<noteq> 0"
  shows "hover (onMouseMove s e) =
           spec_screenToCell (gridW s) (gridH s) (zoom s) (clientX e) (clientY e) (rectLeft e) (rectTop e)"
  using assms by (auto simp: onMouseMove_def cellIndex_def spec_screenToCell_def Let_def)

lemma onMouseMove_pan:
  "hover (onMouseMove (s\<lparr> dragOffset := pan \<rparr>) e) = hover (onMouseMove s e)"
  by (simp add: onMouseMove_def cellIndex_def Let_def split: option.splits prod.splits)

text \<open>
  Claim C8.  Outside a drag and with \<open>zoom \<ge> 1\<close>, the hovered cell is the specification's
  \<open>screenToCell\<close> of the pointer position relative to the stage's bounding box: the
  floor-divided pair for a point inside \<open>[0, W \<sqdot> zoom) \<times> [0, H \<sqdot> zoom)\<close>, the sentinel
  \<open>(-1, -1)\<close> for every other point.  The pan translation \<open>dragOffset\<close> does not enter the
  computation.
\<close>

theorem onMouseMove_hover:
  assumes idle: "\<not> isDragging s" and zm: "1 \<le> zoom s"
  shows "hover (onMouseMove s e) =
           spec_screenToCell (gridW s) (gridH s) (zoom s) (clientX e) (clientY e) (rectLeft e) (rectTop e) \<and>
         (insideStage s e \<longrightarrow>
            hover (onMouseMove s e) =
              \<lparr> x = \<lfloor>(clientX e - rectLeft e) / real_of_int (zoom s)\<rfloor>,
                y = \<lfloor>(clientY e - rectTop e) / real_of_int (zoom s)\<rfloor> \<rparr>) \<and>
         (\<not> insideStage s e \<longrightarrow> hover (onMouseMove s e) = \<lparr> x = - 1, y = - 1 \<rparr>) \<and>
         hover (onMouseMove (s\<lparr> dragOffset := pan \<rparr>) e) = hover (onMouseMove s e)"
proof -
  have nz: "zoom s \<noteq> 0" using zm by simp
  have a: "hover (onMouseMove s e) =
           spec_screenToCell (gridW s) (gridH s) (zoom s) (clientX e) (clientY e) (rectLeft e) (rectTop e)"
    using idle nz by (rule onMouseMove_idle)
  have b: "(0 \<le> \<lfloor>(clientX e - rectLeft e) / real_of_int (zoom s)\<rfloor> \<and>
            \<lfloor>(clientX e - rectLeft e) / real_of_int (zoom s)\<rfloor> < gridW s \<and>
            0 \<le> \<lfloor>(clientY e - rectTop e) / real_of_int (zoom s)\<rfloor> \<and>
            \<lfloor>(clientY e - rectTop e) / real_of_int (zoom s)\<rfloor> < gridH s) \<longleftrightarrow> insideStage s e"
    using floor_div_range [OF zm, of "clientX e - rectLeft e" "gridW s"]
      floor_div_range [OF zm, of "clientY e - rectTop e" "gridH s"]
    unfolding insideStage_def by blast
  have c: "insideStage s e \<longrightarrow>
            hover (onMouseMove s e) =
              \<lparr> x = \<lfloor>(clientX e - rectLeft e) / real_of_int (zoom s)\<rfloor>,
                y = \<lfloor>(clientY e - rectTop e) / real_of_int (zoom s)\<rfloor> \<rparr>"
    using b unfolding a spec_screenToCell_def Let_def by simp
  have d: "\<not> insideStage s e \<longrightarrow> hover (onMouseMove s e) = \<lparr> x = - 1, y = - 1 \<rparr>"
    using b unfolding a spec_screenToCell_def Let_def by auto
  from a c d onMouseMove_pan [where s = s and pan = pan and e = e] show ?thesis by blast
qed

theorem onMouseMove_hover_witness:
  "\<not> isDragging (initialState\<lparr> gridW := 50, gridH := 25 \<rparr>) \<and>
   1 \<le> zoom (initialState\<lparr> gridW := 50, gridH := 25 \<rparr>) \<and>
   insideStage (initialState\<lparr> gridW := 50, gridH := 25 \<rparr>) (eventAt 17 100) \<and>
   hover (onMouseMove (initialState\<lparr> gridW := 50, gridH := 25 \<rparr>) (eventAt 17 100)) = \<lparr> x = 2, y = 12 \<rparr> \<and>
   \<not> insideStage (initialState\<lparr> gridW := 50, gridH := 25 \<rparr>) (eventAt 400 100) \<and>
   hover (onMouseMove (initialState\<lparr> gridW := 50, gridH := 25 \<rparr>) (eventAt 400 100)) = \<lparr> x = - 1, y = - 1 \<rparr> \<and>
   hover (onMouseMove (initialState\<lparr> gridW := 50, gridH := 25, dragOffset := \<lparr> x = 30, y = - 4 \<rparr> \<rparr>) (eventAt 17 100)) =
     \<lparr> x = 2, y = 12 \<rparr>"
proof -
  let ?s = "initialState\<lparr> gridW := 50, gridH := 25 \<rparr>"
  have h1: "\<not> isDragging ?s" and h2: "1 \<le> zoom ?s"
    by (simp_all add: initialState_def)
  have i1: "insideStage ?s (eventAt 17 100)" and i2: "\<not> insideStage ?s (eventAt 400 100)"
    by (simp_all add: insideStage_def eventAt_def initialState_def)
  have fl: "\<lfloor>(17::real) / 8\<rfloor> = 2" "\<lfloor>(100::real) / 8\<rfloor> = 12"
    by (simp_all add: floor_eq_iff)
  have z: "zoom ?s = 8" by (simp add: initialState_def)
  note t1 = onMouseMove_hover [OF h1 h2, where e = "eventAt 17 100" and pan = "\<lparr> x = 30, y = - 4 \<rparr>"]
  from t1 i1 have "hover (onMouseMove ?s (eventAt 17 100)) =
      \<lparr> x = \<lfloor>(clientX (eventAt 17 100) - rectLeft (eventAt 17 100)) / real_of_int (zoom ?s)\<rfloor>,
        y = \<lfloor>(clientY (eventAt 17 100) - rectTop (eventAt 17 100)) / real_of_int (zoom ?s)\<rfloor> \<rparr>"
    by blast
  then have a: "hover (onMouseMove ?s (eventAt 17 100)) = \<lparr> x = 2, y = 12 \<rparr>"
    by (simp add: z fl eventAt_def)
  from t1 have "hover (onMouseMove (?s\<lparr> dragOffset := \<lparr> x = 30, y = - 4 \<rparr> \<rparr>) (eventAt 17 100)) =
      hover (onMouseMove ?s (eventAt 17 100))"
    by blast
  with a have b: "hover (onMouseMove (?s\<lparr> dragOffset := \<lparr> x = 30, y = - 4 \<rparr> \<rparr>) (eventAt 17 100)) = \<lparr> x = 2, y = 12 \<rparr>"
    by simp
  note t2 = onMouseMove_hover [OF h1 h2, where e = "eventAt 400 100" and pan = "\<lparr> x = 30, y = - 4 \<rparr>"]
  from t2 i2 have c: "hover (onMouseMove ?s (eventAt 400 100)) = \<lparr> x = - 1, y = - 1 \<rparr>"
    by blast
  from h1 h2 i1 i2 a b c show ?thesis by simp
qed

lemma onMouseMove_genesis:
  "onMouseMove (s\<lparr> genesisX := gx, genesisY := gy \<rparr>) e =
     (onMouseMove s e)\<lparr> genesisX := gx, genesisY := gy \<rparr>"
  by (simp add: onMouseMove_def cellIndex_def Let_def split: option.splits prod.splits)

lemma processImage_genesis:
  "processImage (s\<lparr> genesisX := gx, genesisY := gy \<rparr>) =
     (case processImage s of Inl e \<Rightarrow> Inl e | Inr s' \<Rightarrow> Inr (s'\<lparr> genesisX := gx, genesisY := gy \<rparr>))"
  by (simp add: processImage_def Let_def split: option.splits double.splits sum.splits)

text \<open>
  Claim C9.  Two runs that differ only in the origin offset compute the same hover cell
  and the same grid (dimensions and colours).  The offset enters the tooltip readout only,
  where it is added to the hovered cell (the sum of two doubles).
\<close>

theorem genesis_noninterference:
  "hover (onMouseMove (s\<lparr> genesisX := gx, genesisY := gy \<rparr>) e) =
     hover (onMouseMove (s\<lparr> genesisX := gx', genesisY := gy' \<rparr>) e) \<and>
   gridOf (processImage (s\<lparr> genesisX := gx, genesisY := gy \<rparr>)) =
     gridOf (processImage (s\<lparr> genesisX := gx', genesisY := gy' \<rparr>)) \<and>
   map_option worldX (tooltip s) =
     (if x (hover s) \<ge> 0 \<and> \<not> isDragging s
      then Some (js_add (numberOr0 (genesisX s)) (Fin (real_of_int (x (hover s))))) else None) \<and>
   map_option worldY (tooltip s) =
     (if x (hover s) \<ge> 0 \<and> \<not> isDragging s
      then Some (js_add (numberOr0 (genesisY s)) (Fin (real_of_int (y (hover s))))) else None)"
proof -
  have "hover (onMouseMove (s\<lparr> genesisX := gx, genesisY := gy \<rparr>) e) =
        hover (onMouseMove (s\<lparr> genesisX := gx', genesisY := gy' \<rparr>) e)"
    by (simp add: onMouseMove_genesis)
  moreover have "gridOf (processImage (s\<lparr> genesisX := gx, genesisY := gy \<rparr>)) =
     gridOf (processImage (s\<lparr> genesisX := gx', genesisY := gy' \<rparr>))"
    by (simp add: processImage_genesis gridOf_def split: sum.splits)
  ultimately show ?thesis by (simp add: tooltip_def)
qed

theorem genesis_noninterference_witness:
  "hover (onMouseMove (initialState\<lparr> genesisX := GNum (jsInt 1000), genesisY := GNum (jsInt (- 250)) \<rparr>) (eventAt 17 100)) =
     hover (onMouseMove (initialState\<lparr> genesisX := GNum (jsInt 0), genesisY := GDash \<rparr>) (eventAt 17 100)) \<and>
   gridOf (processImage (initialState\<lparr> genesisX := GNum (jsInt 1000), genesisY := GNum (jsInt (- 250)) \<rparr>)) =
     gridOf (processImage (initialState\<lparr> genesisX := GNum (jsInt 0), genesisY := GDash \<rparr>)) \<and>
   map_option worldX (tooltip (initialState\<lparr> genesisX := GNum (jsInt 1000), hover := \<lparr> x = 2, y = 12 \<rparr> \<rparr>)) = Some (Some (Fin 1002))"
proof -
  from genesis_noninterference [where s = initialState and gx = "GNum (jsInt 1000)" and gy = "GNum (jsInt (- 250))"
      and e = "eventAt 17 100" and gx' = "GNum (jsInt 0)" and gy' = GDash]
  have a: "hover (onMouseMove (initialState\<lparr> genesisX := GNum (jsInt 1000), genesisY := GNum (jsInt (- 250)) \<rparr>) (eventAt 17 100)) =
     hover (onMouseMove (initialState\<lparr> genesisX := GNum (jsInt 0), genesisY := GDash \<rparr>) (eventAt 17 100))"
    and b: "gridOf (processImage (initialState\<lparr> genesisX := GNum (jsInt 1000), genesisY := GNum (jsInt (- 250)) \<rparr>)) =
     gridOf (processImage (initialState\<lparr> genesisX := GNum (jsInt 0), genesisY := GDash \<rparr>))"
    by blast+
  from genesis_noninterference [where s = "initialState\<lparr> genesisX := GNum (jsInt 1000), hover := \<lparr> x = 2, y = 12 \<rparr> \<rparr>"]
  have "map_option worldX (tooltip (initialState\<lparr> genesisX := GNum (jsInt 1000), hover := \<lparr> x = 2, y = 12 \<rparr> \<rparr>)) = Some (Some (Fin 1002))"
    by (simp add: initialState_def)
  with a b show ?thesis by blast
qed

lemma length_initial: "length PALETTE = 33" "length initialPaletteEnabled = 33"
  by (simp_all add: PALETTE_def initialPaletteEnabled_def)

text \<open>
  Claim C7 as stated fails: toggling index 33, one past the 33 palette entries, is not
  rejected and appends an enabled flag, so the vector grows to length 34.
\<close>

theorem toggleColour_out_of_range_counterexample:
  "length PALETTE = 33 \<and> length (paletteEnabled initialState) = 33 \<and>
   paletteEnabled (toggleColour initialState 33) = paletteEnabled initialState @ [Some True] \<and>
   paletteEnabled (toggleColour initialState 33) \<noteq> paletteEnabled initialState \<and>
   length (paletteEnabled (toggleColour initialState 33)) = 34"
  by (simp add: toggleColour_def toggled_def arraySet_def arrayGet_def initialState_def length_initial)

text \<open>
  Claim C7, as amended.  For an index inside the vector, \<open>toggleColour\<close> keeps the length
  and every other flag; the flag at the index is flipped when the palette is unlocked and
  kept when it is locked; nothing but the enabled vector changes.
\<close>

theorem toggleColour_in_range:
  assumes "0 \<le> idx" and "idx < int (length (paletteEnabled s))"
  shows "length (paletteEnabled (toggleColour s idx)) = length (paletteEnabled s) \<and>
         (\<forall>j < length (paletteEnabled s). j \<noteq> nat idx \<longrightarrow>
             paletteEnabled (toggleColour s idx) ! j = paletteEnabled s ! j) \<and>
         paletteEnabled (toggleColour s idx) ! nat idx =
           (if lockPalette s then paletteEnabled s ! nat idx
            else Some (\<not> truthy (paletteEnabled s ! nat idx))) \<and>
         (toggleColour s idx) \<lparr> paletteEnabled := paletteEnabled s \<rparr> = s"
  using assms by (auto simp: toggleColour_def toggled_def arraySet_def arrayGet_def)

theorem toggleColour_in_range_witness:
  "(0::int) \<le> 1 \<and> 1 < int (length (paletteEnabled initialState)) \<and>
   length (paletteEnabled (toggleColour initialState 1)) = length (paletteEnabled initialState) \<and>
   paletteEnabled initialState ! 1 = Some False \<and>
   paletteEnabled (toggleColour initialState 1) ! 1 = Some True \<and>
   paletteEnabled (toggleColour initialState 1) ! 0 = paletteEnabled initialState ! 0"
proof -
  have h: "(0::int) \<le> 1" "1 < int (length (paletteEnabled initialState))"
    by (simp_all add: initialState_def length_initial)
  have v: "paletteEnabled initialState ! 1 = Some False" "\<not> lockPalette initialState"
    by (simp_all add: initialState_def initialPaletteEnabled_def PALETTE_def BASE_SET_def)
  note t = toggleColour_in_range [OF h]
  from t have "\<forall>j < length (paletteEnabled initialState). j \<noteq> nat 1 \<longrightarrow>
             paletteEnabled (toggleColour initialState 1) ! j = paletteEnabled initialState ! j"
    by blast
  moreover have "0 < length (paletteEnabled initialState)" "(0::nat) \<noteq> nat 1"
    by (simp_all add: initialState_def length_initial)
  ultimately have z: "paletteEnabled (toggleColour initialState 1) ! 0 = paletteEnabled initialState ! 0"
    by blast
  from t v h z show ?thesis by simp
qed


section \<open>The JSON parser consumes its input\<close>

lemma skipWs_length: "length (skipWs cs) \<le> length cs"
  unfolding skipWs_def by (rule length_dropWhile_le)

lemma skipWs_Cons_shorter: "skipWs cs = c # rest \<Longrightarrow> length rest < length cs"
  using skipWs_length [of cs] by simp

lemma parseString_shorter:
  "parseString cs acc = Some (key, rest) \<Longrightarrow> length rest < length cs"
proof -
  have "\<forall>acc. parseString cs acc = Some (key, rest) \<longrightarrow> length rest < length cs"
  proof (induction cs rule: length_induct)
    case (1 cs)
    have ih: "length rest < length ys"
      if "parseString ys acc' = Some (key, rest)" and "length ys < length cs" for ys acc'
      using 1 that by blast
    show ?case
    proof (cases cs)
      case Nil
      then show ?thesis by simp
    next
      case (Cons c cs')
      show ?thesis
      proof (intro allI impI)
        fix acc assume "parseString cs acc = Some (key, rest)"
        with Cons show "length rest < length cs"
          by (auto split: if_splits list.splits option.splits dest!: ih)
      qed
    qed
  qed
  then show "parseString cs acc = Some (key, rest) \<Longrightarrow> length rest < length cs" by blast
qed

lemma parseFraction_length:
  "parseFraction cs = Some (fr, rest) \<Longrightarrow> length rest \<le> length cs"
  using length_dropWhile_le [of isDigit "tl cs"]
  by (auto simp: parseFraction_def Let_def split: list.splits if_splits)

lemma parseExponent_length:
  "parseExponent cs = Some (ex, rest) \<Longrightarrow> length rest \<le> length cs"
proof (cases cs)
  case Nil
  then show "parseExponent cs = Some (ex, rest) \<Longrightarrow> length rest \<le> length cs"
    by (simp add: parseExponent_def)
next
  case (Cons c cs')
  assume p: "parseExponent cs = Some (ex, rest)"
  have a: "length (dropWhile isDigit cs') \<le> length cs'" by (rule length_dropWhile_le)
  have b: "length (dropWhile isDigit (tl cs')) \<le> length cs'"
    using length_dropWhile_le [of isDigit "tl cs'"] by (cases cs') simp_all
  from p Cons a b show "length rest \<le> length cs"
    by (auto simp: parseExponent_def Let_def split: list.splits if_splits)
qed

lemma parseNumber_shorter:
  assumes "parseNumber cs = Some (v, rest)"
  shows "length rest < length cs"
proof -
  define cs1 where "cs1 = (case cs of [] \<Rightarrow> cs | c # cs' \<Rightarrow> if c = 45 then cs' else cs)"
  have l1: "length cs1 \<le> length cs"
    by (simp add: cs1_def split: list.splits)
  have sel: "(case cs of [] \<Rightarrow> (False, cs) | c # cs' \<Rightarrow> if c = 45 then (True, cs') else (False, cs)) =
        ((case cs of [] \<Rightarrow> False | c # cs' \<Rightarrow> c = 45), cs1)"
    by (simp add: cs1_def split: list.splits)
  from assms have ne: "takeWhile isDigit cs1 \<noteq> []"
    unfolding parseNumber_def sel by (simp add: Let_def split: if_splits)
  from assms obtain fr cs2 ex where
    f: "parseFraction (dropWhile isDigit cs1) = Some (fr, cs2)" and e: "parseExponent cs2 = Some (ex, rest)"
    unfolding parseNumber_def sel
    by (auto simp: Let_def split: if_splits option.splits)
  have "length (takeWhile isDigit cs1) + length (dropWhile isDigit cs1) = length cs1"
    by (metis length_append takeWhile_dropWhile_id)
  with ne have "length (dropWhile isDigit cs1) < length cs1"
    by (cases "takeWhile isDigit cs1") simp_all
  with parseFraction_length [OF f] parseExponent_length [OF e] l1 show ?thesis by linarith
qed

lemma parse_shorter:
  "\<forall>v rest. parseValue cs = Some (v, rest) \<longrightarrow> length rest < length cs"
  "\<forall>vs rest. parseElements cs es = Some (vs, rest) \<longrightarrow> length rest < length cs"
  "\<forall>ms rest. parseMembers cs kvs = Some (ms, rest) \<longrightarrow> length rest < length cs"
proof (induction cs and cs es and cs kvs rule: parseValue_parseElements_parseMembers.induct)
  case (1 cs)
  show ?case
  proof (intro allI impI)
    fix v rest assume p: "parseValue cs = Some (v, rest)"
    show "length rest < length cs"
    proof (cases "skipWs cs")
      case Nil
      with p show ?thesis by (simp add: parseValue.simps [of cs])
    next
      case outer: (Cons c cs0)
      note sw = skipWs_Cons_shorter [OF outer]
      consider (obj) "c = 123" | (arr) "c \<noteq> 123" "c = 91" | (str) "c \<noteq> 123" "c \<noteq> 91" "c = 34"
        | (atom) "c \<noteq> 123" "c \<noteq> 91" "c \<noteq> 34"
        by blast
      then show ?thesis
      proof cases
        case obj
        show ?thesis
        proof (cases "skipWs cs0")
          case Nil
          with p outer obj show ?thesis by (simp add: parseValue.simps [of cs])
        next
          case inner: (Cons c' cs1)
          note sw' = skipWs_Cons_shorter [OF inner]
          show ?thesis
          proof (cases "c' = 125")
            case True
            with p outer obj inner have "rest = cs1" by (simp add: parseValue.simps [of cs])
            with sw sw' show ?thesis by simp
          next
            case False
            with p outer obj inner obtain ms where "parseMembers cs0 [] = Some (ms, rest)"
              by (auto simp: parseValue.simps [of cs] withFirst_def)
            with "1.IH"(1) [OF outer obj inner False] have "length rest < length cs0" by blast
            with sw show ?thesis by simp
          qed
        qed
      next
        case arr
        show ?thesis
        proof (cases "skipWs cs0")
          case Nil
          with p outer arr show ?thesis by (simp add: parseValue.simps [of cs])
        next
          case inner: (Cons c' cs1)
          note sw' = skipWs_Cons_shorter [OF inner]
          show ?thesis
          proof (cases "c' = 93")
            case True
            with p outer arr inner have "rest = cs1" by (simp add: parseValue.simps [of cs])
            with sw sw' show ?thesis by simp
          next
            case False
            with p outer arr inner obtain vs where "parseElements cs0 [] = Some (vs, rest)"
              by (auto simp: parseValue.simps [of cs] withFirst_def)
            with "1.IH"(2) [OF outer arr inner False] have "length rest < length cs0" by blast
            with sw show ?thesis by simp
          qed
        qed
      next
        case str
        with p outer obtain key where "parseString cs0 [] = Some (key, rest)"
          by (auto simp: parseValue.simps [of cs] withFirst_def)
        from parseString_shorter [OF this] sw show ?thesis by simp
      next
        case atom
        have lit: "length (drop n (c # cs0)) < length cs" if "0 < n" for n
          using sw that by simp
        from p outer atom have
          "rest = drop 4 (c # cs0) \<or> rest = drop 5 (c # cs0) \<or>
           (\<exists>n. parseNumber (c # cs0) = Some (n, rest))"
          by (auto simp: parseValue.simps [of cs] withFirst_def split: if_splits)
        then show ?thesis
        proof (elim disjE exE)
          assume "rest = drop 4 (c # cs0)"
          with lit [of 4] show ?thesis by simp
        next
          assume "rest = drop 5 (c # cs0)"
          with lit [of 5] show ?thesis by simp
        next
          fix n assume "parseNumber (c # cs0) = Some (n, rest)"
          from parseNumber_shorter [OF this] sw show ?thesis by simp
        qed
      qed
    qed
  qed
next
  case (2 cs acc)
  show ?case
  proof (intro allI impI)
    fix vs rest assume p: "parseElements cs acc = Some (vs, rest)"
    then obtain v cs1 where v: "parseValue cs = Some (v, cs1)" and l: "length cs1 < length cs"
      by (auto simp: parseElements.simps [of cs acc] split: option.splits if_splits)
    show "length rest < length cs"
    proof (cases "skipWs cs1")
      case Nil
      with p v l show ?thesis by (simp add: parseElements.simps [of cs acc])
    next
      case inner: (Cons c cs2)
      note sw = skipWs_Cons_shorter [OF inner]
      show ?thesis
      proof (cases "c = 44")
        case True
        with p v l inner have "parseElements cs2 (acc @ [v]) = Some (vs, rest)"
          by (simp add: parseElements.simps [of cs acc])
        with "2.IH"(2) [OF v refl l inner True] have "length rest < length cs2" by blast
        with sw l show ?thesis by simp
      next
        case False
        with p v l inner have "rest = cs2"
          by (simp add: parseElements.simps [of cs acc] split: if_splits)
        with sw l show ?thesis by simp
      qed
    qed
  qed
next
  case (3 cs acc)
  show ?case
  proof (intro allI impI)
    fix ms rest assume p: "parseMembers cs acc = Some (ms, rest)"
    then obtain c cs0 where o: "skipWs cs = c # cs0" and q: "c = 34"
      by (auto simp: parseMembers.simps [of cs acc] split: list.splits if_splits)
    from p o q obtain key cs1 where k: "parseString cs0 [] = Some (key, cs1)"
      by (auto simp: parseMembers.simps [of cs acc] split: option.splits)
    from p o q k obtain c1 cs2 where o1: "skipWs cs1 = c1 # cs2" and q1: "c1 = 58"
      by (auto simp: parseMembers.simps [of cs acc] split: list.splits if_splits)
    from p o q k o1 q1 obtain v cs3 where v: "parseValue cs2 = Some (v, cs3)"
      and l: "length cs3 < length cs2"
      by (auto simp: parseMembers.simps [of cs acc] split: option.splits if_splits)
    have chain: "length cs2 < length cs"
      using skipWs_Cons_shorter [OF o] parseString_shorter [OF k] skipWs_Cons_shorter [OF o1]
      by simp
    show "length rest < length cs"
    proof (cases "skipWs cs3")
      case Nil
      with p o q k o1 q1 v l show ?thesis by (simp add: parseMembers.simps [of cs acc])
    next
      case inner: (Cons c3 cs4)
      note sw = skipWs_Cons_shorter [OF inner]
      show ?thesis
      proof (cases "c3 = 44")
        case True
        with p o q k o1 q1 v l inner have "parseMembers cs4 (acc @ [(key, v)]) = Some (ms, rest)"
          by (simp add: parseMembers.simps [of cs acc])
        with "3.IH"(2) [OF o q k refl o1 q1 v refl l inner True]
        have "length rest < length cs4" by blast
        with sw l chain show ?thesis by simp
      next
        case False
        with p o q k o1 q1 v l inner have "rest = cs4"
          by (simp add: parseMembers.simps [of cs acc] split: if_splits)
        with sw l chain show ?thesis by simp
      qed
    qed
  qed
qed

lemma parseElements_unguarded:
  "parseElements cs acc =
     (case parseValue cs of
        None \<Rightarrow> None
      | Some (v, rest) \<Rightarrow>
          (case skipWs rest of
             [] \<Rightarrow> None
           | c # rest' \<Rightarrow>
               if c = 44 then parseElements rest' (acc @ [v])
               else if c = 93 then Some (acc @ [v], rest')
               else None))"
  using parse_shorter(1) [of cs]
  by (subst parseElements.simps) (auto split: option.splits)

lemma parseMembers_unguarded:
  "parseMembers cs acc =
     (case skipWs cs of
        [] \<Rightarrow> None
      | c # rest \<Rightarrow>
          if c = 34 then
            (case parseString rest [] of
               None \<Rightarrow> None
             | Some (key, rest1) \<Rightarrow>
                 (case skipWs rest1 of
                    [] \<Rightarrow> None
                  | c1 # rest2 \<Rightarrow>
                      if c1 = 58 then
                        (case parseValue rest2 of
                           None \<Rightarrow> None
                         | Some (v, rest3) \<Rightarrow>
                             (case skipWs rest3 of
                                [] \<Rightarrow> None
                              | c3 # rest4 \<Rightarrow>
                                  if c3 = 44 then parseMembers rest4 (acc @ [(key, v)])
                                  else if c3 = 125 then Some (acc @ [(key, v)], rest4)
                                  else None))
                      else None))
          else None)"
  using parse_shorter(1)
  by (subst parseMembers.simps) (auto split: option.splits list.splits)

section \<open>Base64\<close>

lemma b64value_b64char: "n < 64 \<Longrightarrow> b64value (b64char n) = Some n"
  by (auto simp: b64char_def b64value_def)

lemma b64char_plain:
  "n < 64 \<Longrightarrow> b64char n \<noteq> 61 \<and> \<not> isAsciiWhitespace (b64char n) \<and> \<not> isWhiteSpace (b64char n)"
  by (auto simp: b64char_def isAsciiWhitespace_def isWhiteSpace_def)

lemma sextets_bound:
  "\<forall>b \<in> set bs. b < 256 \<Longrightarrow> \<forall>s \<in> set (sextets bs). s < 64"
  by (induction bs rule: sextets.induct) auto

lemma div_add_small: "q < n \<Longrightarrow> (p * n + q) div n = (p::nat)"
  by simp

lemma mod_add_small: "q < n \<Longrightarrow> (p * n + q) mod n = (q::nat)"
  by simp

lemma sextet_arith:
  fixes b0 b1 b2 :: nat
  assumes "b1 < 256" "b2 < 256"
  shows "(b0 div 4) * 4 + ((b0 mod 4) * 16 + b1 div 16) div 16 = b0"
    and "(((b0 mod 4) * 16 + b1 div 16) mod 16) * 16 + ((b1 mod 16) * 4 + b2 div 64) div 4 = b1"
    and "(((b1 mod 16) * 4 + b2 div 64) mod 4) * 64 + b2 mod 64 = b2"
    and "(((b0 mod 4) * 16 + b1 div 16) mod 16) * 16 + ((b1 mod 16) * 4) div 4 = b1"
proof -
  have q: "b1 div 16 < 16" and t: "b2 div 64 < 4"
    using assms by simp_all
  show "(b0 div 4) * 4 + ((b0 mod 4) * 16 + b1 div 16) div 16 = b0"
    by (simp only: div_add_small [OF q] div_mult_mod_eq)
  show "(((b0 mod 4) * 16 + b1 div 16) mod 16) * 16 + ((b1 mod 16) * 4 + b2 div 64) div 4 = b1"
    by (simp only: mod_add_small [OF q] div_add_small [OF t] div_mult_mod_eq)
  show "(((b1 mod 16) * 4 + b2 div 64) mod 4) * 64 + b2 mod 64 = b2"
    by (simp only: mod_add_small [OF t] div_mult_mod_eq)
  have "((b1 mod 16) * 4) div 4 = b1 mod 16" by simp
  then show "(((b0 mod 4) * 16 + b1 div 16) mod 16) * 16 + ((b1 mod 16) * 4) div 4 = b1"
    by (simp only: mod_add_small [OF q] div_mult_mod_eq)
qed

lemma octets_sextets:
  "\<forall>b \<in> set bs. b < 256 \<Longrightarrow> octets (sextets bs) = bs"
proof (induction bs rule: sextets.induct)
  case (1 b0 b1 b2 bs)
  then have "b1 < 256" "b2 < 256" and ih: "octets (sextets bs) = bs"
    by simp_all
  then show ?case
    by (simp add: sextet_arith)
next
  case (2 b0 b1)
  then have "b1 < 256" by simp
  then show ?case
    using sextet_arith(1,4) [of b1 0 b0] by simp
next
  case (3 b0)
  show ?case by simp
next
  case 4
  show ?case by simp
qed

lemma length_sextets_eq:
  "length (sextets bs) =
     length bs div 3 * 4 + (if length bs mod 3 = 0 then 0 else length bs mod 3 + 1)"
proof (induction bs rule: sextets.induct)
  case (1 b0 b1 b2 bs)
  have "length (b0 # b1 # b2 # bs) = length bs + 3" by simp
  then have "length (b0 # b1 # b2 # bs) div 3 = length bs div 3 + 1"
    and "length (b0 # b1 # b2 # bs) mod 3 = length bs mod 3"
    by (simp_all only: div_add_self2 mod_add_self2) 
  then show ?case using 1 by (simp del: length_Cons One_nat_def)
qed simp_all

lemma length_sextets:
  "(length (sextets bs) + (3 - length bs mod 3) mod 3) mod 4 = 0"
  "length (sextets bs) mod 4 \<noteq> 1"
  "(3 - length bs mod 3) mod 3 \<le> 2"
proof -
  let ?k = "length bs div 3"
  consider "length bs mod 3 = 0" | "length bs mod 3 = 1" | "length bs mod 3 = 2"
    by linarith
  then have "(length (sextets bs) + (3 - length bs mod 3) mod 3) mod 4 = 0 \<and>
      length (sextets bs) mod 4 \<noteq> 1"
  proof cases
    case 1
    then have "length (sextets bs) = ?k * 4" and "(3 - length bs mod 3) mod 3 = 0"
      by (simp_all add: length_sextets_eq)
    then show ?thesis by simp
  next
    case 2
    then have e: "length (sextets bs) = ?k * 4 + 2" and p: "(3 - length bs mod 3) mod 3 = 2"
      by (simp_all add: length_sextets_eq)
    have "(?k * 4 + 2 + 2) mod 4 = 0" "(?k * 4 + 2) mod 4 \<noteq> 1"
      by presburger+
    then show ?thesis unfolding e p by blast
  next
    case 3
    then have e: "length (sextets bs) = ?k * 4 + 3" and p: "(3 - length bs mod 3) mod 3 = 1"
      by (simp_all add: length_sextets_eq)
    have "(?k * 4 + 3 + 1) mod 4 = 0" "(?k * 4 + 3) mod 4 \<noteq> 1"
      by presburger+
    then show ?thesis unfolding e p by blast
  qed
  then show "(length (sextets bs) + (3 - length bs mod 3) mod 3) mod 4 = 0"
    and "length (sextets bs) mod 4 \<noteq> 1" by simp_all
  show "(3 - length bs mod 3) mod 3 \<le> 2"
    by simp
qed

lemma stripPadding_pad:
  assumes "k \<le> 2" and "\<forall>c \<in> set body. c \<noteq> 61"
  shows "stripPadding (body @ replicate k 61) = body"
proof -
  consider "k = 0" | "k = 1" | "k = 2" using assms(1) by linarith
  then show ?thesis
  proof cases
    case 1
    show ?thesis
    proof (cases "rev body")
      case Nil
      then show ?thesis using 1 by (simp add: stripPadding_def)
    next
      case (Cons c1 rest)
      then have "c1 \<in> set body" by (metis list.set_intros(1) set_rev)
      then have "c1 \<noteq> 61" using assms(2) by blast
      then show ?thesis using 1 Cons by (simp add: stripPadding_def split: list.splits)
    qed
  next
    case 2
    show ?thesis
    proof (cases "rev body")
      case Nil
      then show ?thesis using 2 by (simp add: stripPadding_def)
    next
      case (Cons c1 rest)
      then have "c1 \<in> set body" by (metis list.set_intros(1) set_rev)
      then have "c1 \<noteq> 61" using assms(2) by blast
      moreover have "body = rev (c1 # rest)" using Cons by (metis rev_rev_ident)
      ultimately show ?thesis using 2 Cons by (simp add: stripPadding_def)
    qed
  next
    case 3
    then have "rev (body @ replicate k 61) = 61 # 61 # rev body"
      by (simp add: numeral_2_eq_2)
    then show ?thesis by (simp add: stripPadding_def)
  qed
qed

lemma map_filter_b64:
  "\<forall>s \<in> set sx. s < 64 \<Longrightarrow> List.map_filter b64value (map b64char sx) = sx"
  by (induction sx) (simp_all add: List.map_filter_simps b64value_b64char)

lemma atob_btoa:
  assumes bytes: "\<forall>b \<in> set bs. b < 256"
  shows "btoa bs = Inr (map b64char (sextets bs) @ replicate ((3 - length bs mod 3) mod 3) 61)"
    and "atob (map b64char (sextets bs) @ replicate ((3 - length bs mod 3) mod 3) 61) = Inr bs"
proof -
  let ?body = "map b64char (sextets bs)"
  let ?k = "(3 - length bs mod 3) mod 3"
  show "btoa bs = Inr (?body @ replicate ?k 61)"
    using bytes by (auto simp: btoa_def list_ex_iff)
  have sx: "\<forall>s \<in> set (sextets bs). s < 64"
    using bytes by (rule sextets_bound)
  have plain: "\<forall>c \<in> set ?body. c \<noteq> 61 \<and> \<not> isAsciiWhitespace c"
    using sx b64char_plain by auto
  have f: "filter (\<lambda>c. \<not> isAsciiWhitespace c) (?body @ replicate ?k 61) = ?body @ replicate ?k 61"
    using plain by (auto simp: filter_id_conv isAsciiWhitespace_def)
  have len: "length (?body @ replicate ?k 61) mod 4 = 0"
    using length_sextets [of bs] by simp
  have sp: "stripPadding (?body @ replicate ?k 61) = ?body"
    using length_sextets [of bs] plain by (intro stripPadding_pad) auto
  have l1: "length ?body mod 4 \<noteq> 1"
    using length_sextets [of bs] by simp
  have ok: "\<not> list_ex (\<lambda>c. b64value c = None) ?body"
    using sx by (auto simp: list_ex_iff b64value_b64char)
  show "atob (?body @ replicate ?k 61) = Inr bs"
    unfolding atob_def f Let_def using len sp l1 ok
    by (simp add: map_filter_b64 [OF sx] octets_sextets [OF bytes])
qed

section \<open>Trimming and UTF-8 on ASCII\<close>

lemma dropWhile_none:
  assumes "\<forall>c \<in> set cs. \<not> P c"
  shows "dropWhile P cs = cs"
  using assms by (cases cs) auto

lemma trim_plain:
  assumes "\<forall>c \<in> set s. \<not> isWhiteSpace c"
  shows "trim s = s"
proof -
  have "dropWhile isWhiteSpace s = s"
    using assms by (rule dropWhile_none)
  moreover have "dropWhile isWhiteSpace (rev s) = rev s"
    using assms by (intro dropWhile_none) simp
  ultimately show ?thesis by (simp add: trim_def)
qed

lemma trim_blank:
  assumes "\<forall>c \<in> set s. isWhiteSpace c"
  shows "trim s = []"
proof -
  have d: "dropWhile isWhiteSpace s = []"
    using assms by (induction s) simp_all
  show ?thesis unfolding trim_def d by simp
qed

lemma utf8_ascii:
  assumes "\<forall>c \<in> set s. c < 128"
  shows "utf8Encode s = Some s" and "utf8Decode s = Some s"
  using assms by (induction s) simp_all


section \<open>Printing and reading integers\<close>

lemma showNat_digits: "\<forall>c \<in> set (showNat n). isDigit c"
proof (induction n rule: showNat.induct)
  case (1 n)
  show ?case
  proof (cases "n < 10")
    case True
    then show ?thesis by (simp add: showNat.simps [of n] isDigit_def)
  next
    case False
    have "n mod 10 < 10" by simp
    then have "isDigit (48 + n mod 10)" unfolding isDigit_def by linarith
    with False 1 show ?thesis by (simp add: showNat.simps [of n])
  qed
qed

lemma showNat_nonempty: "showNat n \<noteq> []"
  by (simp add: showNat.simps [of n])

lemma digitsVal_snoc: "digitsVal (ds @ [c]) = 10 * digitsVal ds + (c - 48)"
  by (simp add: digitsVal_def)

lemma digitsVal_showNat: "digitsVal (showNat n) = n"
proof (induction n rule: showNat.induct)
  case (1 n)
  show ?case
  proof (cases "n < 10")
    case True
    then show ?thesis by (simp add: showNat.simps [of n] digitsVal_def)
  next
    case False
    with 1 have "digitsVal (showNat (n div 10)) = n div 10" by simp
    with False show ?thesis
      by (simp add: showNat.simps [of n] digitsVal_snoc)
  qed
qed

lemma showNat_leading: "0 < n \<Longrightarrow> hd (showNat n) \<noteq> 48"
proof (induction n rule: showNat.induct)
  case (1 n)
  show ?case
  proof (cases "n < 10")
    case True
    with 1(2) show ?thesis by (simp add: showNat.simps [of n])
  next
    case False
    then have "0 < n div 10" by simp
    with 1 False have "hd (showNat (n div 10)) \<noteq> 48" by simp
    with False show ?thesis
      by (simp add: showNat.simps [of n] showNat_nonempty)
  qed
qed

lemma showNat_zero: "showNat 0 = [48]"
  by (simp add: showNat.simps [of 0])

lemma showNat_no_leading_zero: "\<not> (hd (showNat n) = 48 \<and> 1 < length (showNat n))"
proof (cases "n = 0")
  case True
  then show ?thesis by (simp add: showNat_zero)
next
  case False
  then show ?thesis using showNat_leading [of n] by simp
qed

lemma takeWhile_digits:
  assumes "\<forall>c \<in> set ds. isDigit c" and "\<not> isDigit c"
  shows "takeWhile isDigit (ds @ c # rest) = ds" and "dropWhile isDigit (ds @ c # rest) = c # rest"
  using assms by (simp_all add: takeWhile_append2 dropWhile_append2)

lemma parseNumber_showNat:
  assumes sep: "c = 44 \<or> c = 125"
  shows "parseNumber (showNat n @ c # rest) = Some (toDouble (real n), c # rest)"
proof -
  have nd: "\<not> isDigit c" using sep by (auto simp: isDigit_def)
  obtain d ds where sh: "showNat n = d # ds"
    using showNat_nonempty [of n] by (cases "showNat n") auto
  have "isDigit d" using showNat_digits [of n] sh by simp
  then have d45: "d \<noteq> 45" by (auto simp: isDigit_def)
  have tw: "takeWhile isDigit (showNat n @ c # rest) = showNat n"
    and dw: "dropWhile isDigit (showNat n @ c # rest) = c # rest"
    using takeWhile_digits [OF showNat_digits nd] by blast+
  have fr: "parseFraction (c # rest) = Some (0, c # rest)"
    using sep by (auto simp: parseFraction_def)
  have ex: "parseExponent (c # rest) = Some (0, c # rest)"
    using sep by (auto simp: parseExponent_def)
  have first: "(case showNat n @ c # rest of [] \<Rightarrow> (False, showNat n @ c # rest)
                | c' # rest' \<Rightarrow> if c' = 45 then (True, rest') else (False, showNat n @ c # rest))
               = (False, showNat n @ c # rest)"
    using sh d45 by simp
  show ?thesis
    unfolding parseNumber_def first
    using showNat_no_leading_zero [of n] showNat_nonempty [of n]
    by (simp add: Let_def tw dw fr ex digitsVal_showNat scale10_def)
qed

lemma parseNumber_negative:
  assumes sep: "c = 44 \<or> c = 125"
  shows "parseNumber (45 # showNat n @ c # rest) = Some (toDouble (- real n), c # rest)"
proof -
  have nd: "\<not> isDigit c" using sep by (auto simp: isDigit_def)
  have tw: "takeWhile isDigit (showNat n @ c # rest) = showNat n"
    and dw: "dropWhile isDigit (showNat n @ c # rest) = c # rest"
    using takeWhile_digits [OF showNat_digits nd] by blast+
  have fr: "parseFraction (c # rest) = Some (0, c # rest)"
    using sep by (auto simp: parseFraction_def)
  have ex: "parseExponent (c # rest) = Some (0, c # rest)"
    using sep by (auto simp: parseExponent_def)
  show ?thesis
    unfolding parseNumber_def
    using showNat_no_leading_zero [of n] showNat_nonempty [of n]
    by (simp add: Let_def tw dw fr ex digitsVal_showNat scale10_def)
qed

lemma parseNumber_showInt:
  assumes sep: "c = 44 \<or> c = 125"
  shows "parseNumber (showInt i @ c # rest) = Some (toDouble (real_of_int i), c # rest)"
proof (cases "i < 0")
  case True
  then have "- real (nat (- i)) = real_of_int i" by simp
  with True show ?thesis
    using parseNumber_negative [OF sep, of "nat (- i)" rest] by (simp add: showInt_def)
next
  case False
  then have "real (nat i) = real_of_int i" by simp
  with False show ?thesis
    using parseNumber_showNat [OF sep, of "nat i" rest] by (simp add: showInt_def)
qed

lemma showInt_head:
  "\<exists>d ds. showInt i = d # ds \<and> (d = 45 \<or> isDigit d)"
proof (cases "i < 0")
  case True
  then show ?thesis by (simp add: showInt_def)
next
  case False
  obtain d ds where sh: "showNat (nat i) = d # ds"
    using showNat_nonempty [of "nat i"] by (cases "showNat (nat i)") auto
  then have "isDigit d" using showNat_digits [of "nat i"] by simp
  with sh False show ?thesis by (simp add: showInt_def)
qed

lemma parseValue_showInt:
  assumes sep: "c = 44 \<or> c = 125"
  shows "parseValue (showInt i @ c # rest) = Some (JNum (toDouble (real_of_int i)), c # rest)"
proof -
  from showInt_head [of i] obtain d ds where sh: "showInt i = d # ds"
    and d: "d = 45 \<or> isDigit d" by blast
  have ws: "skipWs (d # ds @ c # rest) = d # ds @ c # rest"
    using d by (auto simp: skipWs_def isJsonWs_def isDigit_def)
  have kind: "d \<noteq> 123" "d \<noteq> 91" "d \<noteq> 34" "d \<noteq> 116" "d \<noteq> 102" "d \<noteq> 110"
    using d by (auto simp: isDigit_def)
  have lit: "take 4 (d # ds @ c # rest) \<noteq> js ''true''"
    "take 5 (d # ds @ c # rest) \<noteq> js ''false''"
    "take 4 (d # ds @ c # rest) \<noteq> js ''null''"
    using kind by (auto simp: js_def)
  have "parseValue (d # ds @ c # rest) = withFirst JNum (parseNumber (d # ds @ c # rest))"
    using ws kind lit by (simp add: parseValue.simps [of "d # ds @ c # rest"] del: take_Cons_numeral)
  also have "\<dots> = Some (JNum (toDouble (real_of_int i)), c # rest)"
    using parseNumber_showInt [OF sep, of i rest] sh by (simp add: withFirst_def)
  finally show ?thesis using sh by simp
qed

lemma showInt_nonempty: "showInt i \<noteq> []"
  using showInt_head [of i] by auto

section \<open>Reading the members of the payload\<close>

lemma parseString_plain:
  assumes "plainKey key"
  shows "parseString (key @ 34 # rest) acc = Some (acc @ key, rest)"
  using assms by (induction key arbitrary: acc) (simp_all add: plainKey_def)

lemma parseMembers_number:
  assumes key: "plainKey key"
  shows "parseMembers (34 # key @ 34 # 58 # showInt i @ 44 # rest) acc =
           parseMembers rest (acc @ [(key, JNum (toDouble (real_of_int i)))])"
    and "parseMembers (34 # key @ 34 # 58 # showInt i @ 125 # rest) acc =
           Some (acc @ [(key, JNum (toDouble (real_of_int i)))], rest)"
proof -
  have ws: "skipWs (34 # cs) = 34 # cs" "skipWs (58 # cs) = 58 # cs"
    "skipWs (44 # cs) = 44 # cs" "skipWs (125 # cs) = 125 # cs" for cs
    by (simp_all add: skipWs_def isJsonWs_def)
  have len: "length (c # rest) < length (showInt i @ c # rest)" for c
    using showInt_nonempty [of i] by (cases "showInt i") simp_all
  show "parseMembers (34 # key @ 34 # 58 # showInt i @ 44 # rest) acc =
           parseMembers rest (acc @ [(key, JNum (toDouble (real_of_int i)))])"
    using len [of 44]
    by (subst parseMembers.simps)
       (simp add: ws parseString_plain [OF key] parseValue_showInt)
  show "parseMembers (34 # key @ 34 # 58 # showInt i @ 125 # rest) acc =
           Some (acc @ [(key, JNum (toDouble (real_of_int i)))], rest)"
    using len [of 125]
    by (subst parseMembers.simps)
       (simp add: ws parseString_plain [OF key] parseValue_showInt)
qed

lemma parseValue_object:
  "parseValue (123 # 34 # rest) = withFirst JObj (parseMembers (34 # rest) [])"
  by (subst parseValue.simps) (simp add: skipWs_def isJsonWs_def)

section \<open>The numbers of a parsed value\<close>

lemma isDouble_toDouble: "isDouble (toDouble v)"
  by (cases "toDouble v") (simp_all add: toDouble_idem)

lemma parseNumber_double:
  assumes "parseNumber cs = Some (d, rest)"
  shows "isDouble d"
  using assms
  by (auto simp: parseNumber_def Let_def isDouble_toDouble split: prod.splits if_splits option.splits)

lemma parse_doubles:
  "\<forall>v rest. parseValue cs = Some (v, rest) \<longrightarrow> jsonDoubles v"
  "\<forall>vs rest. parseElements cs es = Some (vs, rest) \<longrightarrow> list_all jsonDoubles es \<longrightarrow> list_all jsonDoubles vs"
  "\<forall>ms rest. parseMembers cs kvs = Some (ms, rest) \<longrightarrow>
      list_all (\<lambda>m. jsonDoubles (snd m)) kvs \<longrightarrow> list_all (\<lambda>m. jsonDoubles (snd m)) ms"
proof (induction cs and cs es and cs kvs rule: parseValue_parseElements_parseMembers.induct)
  case (1 cs)
  show ?case
  proof (intro allI impI)
    fix v rest assume p: "parseValue cs = Some (v, rest)"
    show "jsonDoubles v"
    proof (cases "skipWs cs")
      case Nil
      with p show ?thesis by (simp add: parseValue.simps [of cs])
    next
      case outer: (Cons c cs0)
      consider (obj) "c = 123" | (arr) "c \<noteq> 123" "c = 91" | (str) "c \<noteq> 123" "c \<noteq> 91" "c = 34"
        | (atom) "c \<noteq> 123" "c \<noteq> 91" "c \<noteq> 34"
        by blast
      then show ?thesis
      proof cases
        case obj
        show ?thesis
        proof (cases "skipWs cs0")
          case Nil
          with p outer obj show ?thesis by (simp add: parseValue.simps [of cs])
        next
          case inner: (Cons c' cs1)
          show ?thesis
          proof (cases "c' = 125")
            case True
            with p outer obj inner have "v = JObj []" by (simp add: parseValue.simps [of cs])
            then show ?thesis by simp
          next
            case False
            with p outer obj inner obtain ms where "parseMembers cs0 [] = Some (ms, rest)" and "v = JObj ms"
              by (auto simp: parseValue.simps [of cs] withFirst_def)
            with "1.IH"(1) [OF outer obj inner False] show ?thesis by simp
          qed
        qed
      next
        case arr
        show ?thesis
        proof (cases "skipWs cs0")
          case Nil
          with p outer arr show ?thesis by (simp add: parseValue.simps [of cs])
        next
          case inner: (Cons c' cs1)
          show ?thesis
          proof (cases "c' = 93")
            case True
            with p outer arr inner have "v = JArr []" by (simp add: parseValue.simps [of cs])
            then show ?thesis by simp
          next
            case False
            with p outer arr inner obtain vs where "parseElements cs0 [] = Some (vs, rest)" and "v = JArr vs"
              by (auto simp: parseValue.simps [of cs] withFirst_def)
            with "1.IH"(2) [OF outer arr inner False] show ?thesis by simp
          qed
        qed
      next
        case str
        with p outer obtain key where "v = JStr key"
          by (auto simp: parseValue.simps [of cs] withFirst_def)
        then show ?thesis by simp
      next
        case atom
        from p outer atom have
          "v = JBool True \<or> v = JBool False \<or> v = JNull \<or>
           (\<exists>n. parseNumber (c # cs0) = Some (n, rest) \<and> v = JNum n)"
          by (auto simp: parseValue.simps [of cs] withFirst_def split: if_splits)
        then show ?thesis
          by (auto dest: parseNumber_double)
      qed
    qed
  qed
next
  case (2 cs acc)
  show ?case
  proof (intro allI impI)
    fix vs rest assume p: "parseElements cs acc = Some (vs, rest)"
      and acc: "list_all jsonDoubles acc"
    from p obtain v cs1 where v: "parseValue cs = Some (v, cs1)" and l: "length cs1 < length cs"
      by (auto simp: parseElements.simps [of cs acc] split: option.splits if_splits)
    have dv: "jsonDoubles v" using "2.IH"(1) v by blast
    show "list_all jsonDoubles vs"
    proof (cases "skipWs cs1")
      case Nil
      with p v l show ?thesis by (simp add: parseElements.simps [of cs acc])
    next
      case inner: (Cons c cs2)
      show ?thesis
      proof (cases "c = 44")
        case True
        with p v l inner have "parseElements cs2 (acc @ [v]) = Some (vs, rest)"
          by (simp add: parseElements.simps [of cs acc])
        with "2.IH"(2) [OF v refl l inner True] acc dv show ?thesis by simp
      next
        case False
        with p v l inner have "vs = acc @ [v]"
          by (simp add: parseElements.simps [of cs acc] split: if_splits)
        with acc dv show ?thesis by simp
      qed
    qed
  qed
next
  case (3 cs acc)
  show ?case
  proof (intro allI impI)
    fix ms rest assume p: "parseMembers cs acc = Some (ms, rest)"
      and acc: "list_all (\<lambda>m. jsonDoubles (snd m)) acc"
    from p obtain c cs0 where o: "skipWs cs = c # cs0" and q: "c = 34"
      by (auto simp: parseMembers.simps [of cs acc] split: list.splits if_splits)
    from p o q obtain key cs1 where k: "parseString cs0 [] = Some (key, cs1)"
      by (auto simp: parseMembers.simps [of cs acc] split: option.splits)
    from p o q k obtain c1 cs2 where o1: "skipWs cs1 = c1 # cs2" and q1: "c1 = 58"
      by (auto simp: parseMembers.simps [of cs acc] split: list.splits if_splits)
    from p o q k o1 q1 obtain v cs3 where v: "parseValue cs2 = Some (v, cs3)"
      and l: "length cs3 < length cs2"
      by (auto simp: parseMembers.simps [of cs acc] split: option.splits if_splits)
    have dv: "jsonDoubles v" using "3.IH"(1) [OF o q k refl o1 q1] v by blast
    show "list_all (\<lambda>m. jsonDoubles (snd m)) ms"
    proof (cases "skipWs cs3")
      case Nil
      with p o q k o1 q1 v l show ?thesis by (simp add: parseMembers.simps [of cs acc])
    next
      case inner: (Cons c3 cs4)
      show ?thesis
      proof (cases "c3 = 44")
        case True
        with p o q k o1 q1 v l inner have "parseMembers cs4 (acc @ [(key, v)]) = Some (ms, rest)"
          by (simp add: parseMembers.simps [of cs acc])
        with "3.IH"(2) [OF o q k refl o1 q1 v refl l inner True] acc dv
        show ?thesis by simp
      next
        case False
        with p o q k o1 q1 v l inner have "ms = acc @ [(key, v)]"
          by (simp add: parseMembers.simps [of cs acc] split: if_splits)
        with acc dv show ?thesis by simp
      qed
    qed
  qed
qed

lemma parseValue_doubles: "parseValue cs = Some (v, rest) \<Longrightarrow> jsonDoubles v"
  using parse_doubles(1) by blast

lemma decodeCode_doubles:
  assumes "decodeCode code = Inr data"
  shows "jsonDoubles data"
  using assms
  by (auto simp: decodeCode_def JSON_parse_def split: sum.splits option.splits if_splits
           dest: parseValue_doubles)

lemma find_member: "find P xs = Some m \<Longrightarrow> m \<in> set xs"
  by (induction xs) (auto split: if_splits)

lemma getProp_double:
  assumes "jsonDoubles data" and "getProp data name = Some (JNum d)"
  shows "isDouble d"
proof (cases data)
  case (JObj members)
  with assms(2) obtain m where "find (\<lambda>(key, value). key = name) (rev members) = Some m"
    and "snd m = JNum d"
    by auto
  then have "m \<in> set members" "snd m = JNum d"
    using find_member [of "\<lambda>(key, value). key = name" "rev members" m] by simp_all
  with assms(1) JObj show ?thesis by (auto simp: list_all_iff)
qed (use assms in simp_all)

lemma numberProp_double:
  assumes "decodeCode code = Inr data" and "numberProp data name = Some (Fin v)"
  shows "toDouble v = Fin v" and "intOf (jsInt (round v)) = round v"
proof -
  from assms(2) have "getProp data name = Some (JNum (Fin v))"
    by (auto simp: numberProp_def split: option.splits json.splits)
  from getProp_double [OF decodeCode_doubles [OF assms(1)] this]
  show d: "toDouble v = Fin v" by simp
  then show "intOf (jsInt (round v)) = round v" by (rule jsInt_round)
qed

section \<open>Settings export and import\<close>

lemma showInt_1: "showInt 1 = [49]"
  by (simp add: showInt_def showNat.simps [of "Suc 0"])

lemma payload_shape:
  assumes "genesisX s = GNum gx" and "genesisY s = GNum gy"
  shows "payloadJson s =
           123 # 34 # js ''v'' @ 34 # 58 # showInt 1 @
           44 # 34 # js ''pixelsAcross'' @ 34 # 58 # showInt (pixelsAcross s) @
           44 # 34 # js ''genesisX'' @ 34 # 58 # showInt (intOf gx) @
           44 # 34 # js ''genesisY'' @ 34 # 58 # showInt (intOf gy) @
           44 # 34 # js ''zoom'' @ 34 # 58 # showInt (zoom s) @ [125]"
  using assms by (simp add: payloadJson_def js_def showInt_1)

lemma plain_keys:
  "plainKey (js ''v'')" "plainKey (js ''pixelsAcross'')" "plainKey (js ''genesisX'')"
  "plainKey (js ''genesisY'')" "plainKey (js ''zoom'')"
  by (simp_all add: plainKey_def js_def)

lemma toDouble_small:
  assumes "lo \<le> n" and "n \<le> hi" and "- (2 ^ 53) \<le> lo" and "hi \<le> 2 ^ 53"
  shows "toDouble (real_of_int n) = Fin (real_of_int n)"
  using assms by (intro toDouble_int) simp

lemma JSON_parse_payload:
  assumes "genesisX s = GNum gx" and "genesisY s = GNum gy"
    and "5 \<le> pixelsAcross s" and "pixelsAcross s \<le> 400"
    and "1 \<le> zoom s" and "zoom s \<le> 64"
  shows "JSON_parse (payloadJson s) = Inr (payloadValue (pixelsAcross s) gx gy (zoom s))"
proof -
  have d: "toDouble (real_of_int 1) = Fin 1"
    "toDouble (real_of_int (pixelsAcross s)) = Fin (real_of_int (pixelsAcross s))"
    "toDouble (real_of_int (zoom s)) = Fin (real_of_int (zoom s))"
    using toDouble_small [OF assms(3,4)] toDouble_small [OF assms(5,6)] by simp_all
  have "parseValue (payloadJson s) = Some (payloadValue (pixelsAcross s) gx gy (zoom s), [])"
    unfolding payload_shape [OF assms(1,2)] parseValue_object
    by (simp only: parseMembers_number [OF plain_keys(1)] parseMembers_number [OF plain_keys(2)]
          parseMembers_number [OF plain_keys(3)] parseMembers_number [OF plain_keys(4)]
          parseMembers_number [OF plain_keys(5)] append_Nil append_Cons append_assoc
          withFirst_def option.map prod.case payloadValue_def d intOf_double)
  then show ?thesis by (simp add: JSON_parse_def skipWs_def)
qed

lemma showInt_ascii: "\<forall>c \<in> set (showInt i). c < 128"
proof -
  have "\<forall>c \<in> set (showNat n). c < 128" for n
    using showNat_digits [of n] by (auto simp: isDigit_def)
  then show ?thesis by (auto simp: showInt_def)
qed

lemma payload_ascii:
  assumes "genesisX s = GNum gx" and "genesisY s = GNum gy"
  shows "\<forall>c \<in> set (payloadJson s). c < 128"
  using assms showInt_ascii by (auto simp: payloadJson_def js_def)

lemma payload_nonempty: "payloadJson s \<noteq> []"
  by (simp add: payloadJson_def js_def)

lemma sextets_nonempty: "bs \<noteq> [] \<Longrightarrow> sextets bs \<noteq> []"
  by (induction bs rule: sextets.induct) simp_all

lemma exportSettings_code:
  assumes "genesisX s = GNum gx" and "genesisY s = GNum gy"
    and "5 \<le> pixelsAcross s" and "pixelsAcross s \<le> 400"
    and "1 \<le> zoom s" and "zoom s \<le> 64"
  shows "\<exists>code. exportSettings s = s\<lparr> shareCode := code \<rparr> \<and> trim code = code \<and> code \<noteq> [] \<and>
           decodeCode code = Inr (payloadValue (pixelsAcross s) gx gy (zoom s))"
proof -
  let ?json = "payloadJson s"
  let ?code = "map b64char (sextets ?json) @ replicate ((3 - length ?json mod 3) mod 3) 61"
  have ascii: "\<forall>c \<in> set ?json. c < 128"
    using assms(1,2) by (rule payload_ascii)
  then have bytes: "\<forall>b \<in> set ?json. b < 256" by auto
  have enc: "utf8Encode ?json = Some ?json" and dec: "utf8Decode ?json = Some ?json"
    using utf8_ascii [OF ascii] by blast+
  have bt: "btoa ?json = Inr ?code" and ab: "atob ?code = Inr ?json"
    using atob_btoa [OF bytes] by blast+
  have ex: "exportSettings s = s\<lparr> shareCode := ?code \<rparr>"
    by (simp add: exportSettings_def enc bt)
  have sx: "\<forall>n \<in> set (sextets ?json). n < 64"
    using bytes by (rule sextets_bound)
  have "\<forall>c \<in> set ?code. \<not> isWhiteSpace c"
    using sx b64char_plain by (auto simp: isWhiteSpace_def)
  then have tr: "trim ?code = ?code" by (rule trim_plain)
  have ne: "?code \<noteq> []"
    using sextets_nonempty [OF payload_nonempty, of s] by simp
  have "decodeCode ?code = Inr (payloadValue (pixelsAcross s) gx gy (zoom s))"
    by (simp add: decodeCode_def ab dec JSON_parse_payload [OF assms])
  with ex tr ne show ?thesis by blast
qed

lemma applyFields_payload:
  assumes "5 \<le> p" "p \<le> 400" "1 \<le> zm" "zm \<le> 64"
  shows "applyFields t (payloadValue p gx gy zm) =
           t\<lparr> pixelsAcross := p, genesisX := GNum gx, genesisY := GNum gy, zoom := zm \<rparr>"
  using assms by (simp add: applyFields_def payloadValue_def numberProp_def js_def clamp_def)

lemma payload_checks:
  "isObject (payloadValue p gx gy zm)"
  "getProp (payloadValue p gx gy zm) (js ''v'') = Some (JNum (Fin 1))"
  by (simp_all add: payloadValue_def js_def)

text \<open>
  Claim C3.  For settings with \<open>pixelsAcross\<close> in \<open>[5, 400]\<close>, \<open>zoom\<close> in \<open>[1, 64]\<close> and integer
  origin, the code that \<open>exportSettings\<close> produces, applied by \<open>applySettings\<close> in any state,
  raises no alert and sets exactly these four values.
\<close>

theorem settings_round_trip:
  assumes "5 \<le> pixelsAcross s" and "pixelsAcross s \<le> 400"
    and "1 \<le> zoom s" and "zoom s \<le> 64"
    and "genesisX s = GNum gx" and "genesisY s = GNum gy"
    and "shareCode t = shareCode (exportSettings s)"
  shows "applySettings t =
           (None, t\<lparr> pixelsAcross := pixelsAcross s, genesisX := GNum gx,
                     genesisY := GNum gy, zoom := zoom s \<rparr>)"
proof -
  from exportSettings_code [OF assms(5,6) assms(1-4)] obtain code where
    ex: "exportSettings s = s\<lparr> shareCode := code \<rparr>" and tr: "trim code = code" and ne: "code \<noteq> []"
    and dc: "decodeCode code = Inr (payloadValue (pixelsAcross s) gx gy (zoom s))"
    by blast
  have sc: "shareCode t = code" using assms(7) ex by simp
  have "trySettings t code =
          Inr (t\<lparr> pixelsAcross := pixelsAcross s, genesisX := GNum gx,
                  genesisY := GNum gy, zoom := zoom s \<rparr>)"
    by (simp add: trySettings_def dc payload_checks applyFields_payload [OF assms(1-4)])
  then show ?thesis
    by (simp add: applySettings_def sc tr ne)
qed


text \<open>Evaluating the decoder on a literal share code.\<close>

lemmas decode_eval =
  decodeCode_def atob_def js_def isAsciiWhitespace_def stripPadding_def b64value_def
  List.map_filter_simps JSON_parse_def skipWs_def isJsonWs_def withFirst_def parseNumber_def
  parseFraction_def parseExponent_def isDigit_def digitsVal_def scale10_def
  parseValue.simps parseMembers.simps parseElements.simps simpleEscape_def hex4_def hexVal_def

lemma decode_missing:
  "decodeCode (js ''eyJ2IjoxLCJwaXhlbHNBY3Jvc3MiOjUwfQ=='') =
     Inr (JObj [(js ''v'', JNum (Fin 1)), (js ''pixelsAcross'', JNum (Fin 50))])"
  by (simp add: decode_eval)

lemma decode_wrong_type:
  "decodeCode (js ''eyJ2IjoxLCJwaXhlbHNBY3Jvc3MiOjUwLCJnZW5lc2lzWCI6IjciLCJnZW5lc2lzWSI6Miwiem9vbSI6M30='') =
     Inr (JObj [(js ''v'', JNum (Fin 1)), (js ''pixelsAcross'', JNum (Fin 50)), (js ''genesisX'', JStr (js ''7'')),
                (js ''genesisY'', JNum (Fin 2)), (js ''zoom'', JNum (Fin 3))])"
  by (simp add: decode_eval)

lemma decode_version_2:
  "decodeCode (js ''eyJ2IjoyLCJwaXhlbHNBY3Jvc3MiOjUwLCJnZW5lc2lzWCI6MCwiZ2VuZXNpc1kiOjAsInpvb20iOjh9'') =
     Inr (JObj [(js ''v'', JNum (Fin 2)), (js ''pixelsAcross'', JNum (Fin 50)), (js ''genesisX'', JNum (Fin 0)),
                (js ''genesisY'', JNum (Fin 0)), (js ''zoom'', JNum (Fin 8))])"
  by (simp add: decode_eval)

lemma decode_failures:
  "decodeCode (js ''!!!'') = Inl InvalidCharacterError"
  "decodeCode (js ''bm90IGpzb24='') = Inl SyntaxError"
  "decodeCode (js ''/w=='') = Inl URIError"
  by (simp_all add: decode_eval)

lemma decode_array:
  "decodeCode (js ''WzEsMl0='') = Inr (JArr [JNum (Fin 1), JNum (Fin 2)])"
  by (simp add: decode_eval)

lemma replicate_pad: "replicate 2 c = [c, c]" "replicate 1 c = [c]"
  by (simp_all add: numeral_2_eq_2)

lemma export_initial:
  "shareCode (exportSettings initialState) =
     js ''eyJ2IjoxLCJwaXhlbHNBY3Jvc3MiOjEwMCwiZ2VuZXNpc1giOjAsImdlbmVzaXNZIjowLCJ6b29tIjo4fQ==''"
  by (simp add: exportSettings_def payloadJson_def initialState_def js_def showInt_def
        showNat.simps btoa_def b64char_def replicate_pad)

lemma trim_literal:
  "trim (js ''eyJ2IjoxLCJwaXhlbHNBY3Jvc3MiOjUwfQ=='') = js ''eyJ2IjoxLCJwaXhlbHNBY3Jvc3MiOjUwfQ==''"
  by (simp add: trim_def js_def isWhiteSpace_def)


theorem settings_round_trip_witness:
  "5 \<le> pixelsAcross initialState \<and> pixelsAcross initialState \<le> 400 \<and>
   1 \<le> zoom initialState \<and> zoom initialState \<le> 64 \<and>
   genesisX initialState = GNum (jsInt 0) \<and> genesisY initialState = GNum (jsInt 0) \<and>
   shareCode (exportSettings initialState) =
     js ''eyJ2IjoxLCJwaXhlbHNBY3Jvc3MiOjEwMCwiZ2VuZXNpc1giOjAsImdlbmVzaXNZIjowLCJ6b29tIjo4fQ=='' \<and>
   applySettings (initialState\<lparr> pixelsAcross := 7, zoom := 3, genesisX := GDash,
                    shareCode := shareCode (exportSettings initialState) \<rparr>) =
     (None, initialState\<lparr> pixelsAcross := 100, zoom := 8, genesisX := GNum (jsInt 0), genesisY := GNum (jsInt 0),
                    shareCode := shareCode (exportSettings initialState) \<rparr>)"
proof -
  let ?t = "initialState\<lparr> pixelsAcross := 7, zoom := 3, genesisX := GDash,
                    shareCode := shareCode (exportSettings initialState) \<rparr>"
  have h: "5 \<le> pixelsAcross initialState" "pixelsAcross initialState \<le> 400"
    "1 \<le> zoom initialState" "zoom initialState \<le> 64"
    "genesisX initialState = GNum (jsInt 0)" "genesisY initialState = GNum (jsInt 0)"
    by (simp_all add: initialState_def)
  have c: "shareCode ?t = shareCode (exportSettings initialState)" by simp
  have "applySettings ?t =
          (None, ?t\<lparr> pixelsAcross := pixelsAcross initialState, genesisX := GNum (jsInt 0),
                      genesisY := GNum (jsInt 0), zoom := zoom initialState \<rparr>)"
    using h c by (rule settings_round_trip)
  then have "applySettings ?t =
     (None, initialState\<lparr> pixelsAcross := 100, zoom := 8, genesisX := GNum (jsInt 0), genesisY := GNum (jsInt 0),
                    shareCode := shareCode (exportSettings initialState) \<rparr>)"
    by (simp add: initialState_def)
  with h export_initial show ?thesis by blast
qed

text \<open>
  Claim C10.  With an empty or white-space-only share code, \<open>applySettings\<close> shows no
  alert and returns the state unchanged.
\<close>

theorem applySettings_blank:
  assumes "\<forall>c \<in> set (shareCode s). isWhiteSpace c"
  shows "applySettings s = (None, s)"
  using trim_blank [OF assms] by (simp add: applySettings_def)

theorem applySettings_blank_witness:
  "applySettings (initialState\<lparr> shareCode := [] \<rparr>) = (None, initialState\<lparr> shareCode := [] \<rparr>) \<and>
   applySettings (initialState\<lparr> shareCode := [0x20, 0x09, 0x0A, 0x3000] \<rparr>) =
     (None, initialState\<lparr> shareCode := [0x20, 0x09, 0x0A, 0x3000] \<rparr>)"
proof -
  have "\<forall>c \<in> set (shareCode (initialState\<lparr> shareCode := [] \<rparr>)). isWhiteSpace c"
    by simp
  moreover have "\<forall>c \<in> set (shareCode (initialState\<lparr> shareCode := [0x20, 0x09, 0x0A, 0x3000] \<rparr>)). isWhiteSpace c"
    by (simp add: isWhiteSpace_def)
  ultimately show ?thesis
    using applySettings_blank by blast
qed

lemma applyFields_fields:
  "pixelsAcross (applyFields s data) =
     (case numberProp data (js ''pixelsAcross'') of
        None \<Rightarrow> pixelsAcross s
      | Some (Fin v) \<Rightarrow> max 5 (min 400 (round v))
      | Some PosInf \<Rightarrow> 400
      | Some NegInf \<Rightarrow> 5)"
  "genesisX (applyFields s data) =
     (case numberProp data (js ''genesisX'') of
        None \<Rightarrow> genesisX s
      | Some (Fin v) \<Rightarrow> GNum (jsInt (round v))
      | Some PosInf \<Rightarrow> GPosInf
      | Some NegInf \<Rightarrow> GNegInf)"
  "genesisY (applyFields s data) =
     (case numberProp data (js ''genesisY'') of
        None \<Rightarrow> genesisY s
      | Some (Fin v) \<Rightarrow> GNum (jsInt (round v))
      | Some PosInf \<Rightarrow> GPosInf
      | Some NegInf \<Rightarrow> GNegInf)"
  "zoom (applyFields s data) =
     (case numberProp data (js ''zoom'') of
        None \<Rightarrow> zoom s
      | Some (Fin v) \<Rightarrow> max 1 (min 64 (round v))
      | Some PosInf \<Rightarrow> 64
      | Some NegInf \<Rightarrow> 1)"
  "(applyFields s data)\<lparr> pixelsAcross := pixelsAcross s, genesisX := genesisX s,
        genesisY := genesisY s, zoom := zoom s \<rparr> = s"
  by (simp_all add: applyFields_def Let_def clamp_def split: option.splits double.splits)

lemma applySettings_cases:
  assumes "trim (shareCode s) \<noteq> []"
  shows "(case decodeCode (trim (shareCode s)) of
            Inl e \<Rightarrow> applySettings s = (Some alertText, s)
          | Inr data \<Rightarrow>
              if accepted data then applySettings s = (None, applyFields s data)
              else applySettings s = (Some alertText, s))"
  using assms
  by (auto simp: applySettings_def trySettings_def accepted_def alertText_def Let_def
           split: sum.splits)

lemma applySettings_accepted:
  assumes "trim (shareCode s) = code" and "code \<noteq> []"
    and "decodeCode code = Inr data" and "accepted data"
  shows "applySettings s = (None, applyFields s data)"
  using applySettings_cases [of s] assms by simp

lemma applySettings_rejected:
  assumes "trim (shareCode s) = code" and "code \<noteq> []"
    and "decodeCode code = Inl e \<or> (\<exists>data. decodeCode code = Inr data \<and> \<not> accepted data)"
  shows "applySettings s = (Some alertText, s)"
  using applySettings_cases [of s] assms by auto

text \<open>
  Claim C4, as amended.  For a non-blank code, \<open>applySettings\<close> shows the alert and leaves
  the state unchanged when the code does not decode (Base64, UTF-8, JSON), or decodes to
  something that is not an object, or whose \<open>v\<close> is not the number 1; whenever the alert is
  shown the state is unchanged.  Otherwise no alert is shown and each of the four fields is
  set on its own.  A field whose name is missing from the payload, or holds something that
  is not a number, is left as it was.  A number \<open>v\<close> sets \<open>pixelsAcross\<close> to
  \<open>max(5, min(400, round(v)))\<close> and \<open>zoom\<close> to \<open>max(1, min(64, round(v)))\<close>, an infinity giving
  the bound on its side, and sets an origin to \<open>round(v)\<close>, an infinity staying one.  The
  numbers are the doubles nearest to the literals of the payload, so that \<open>round(v)\<close> is an
  integer among the doubles.  No other part of the state changes.
\<close>

theorem applySettings_validation:
  assumes "trim (shareCode s) \<noteq> []"
  shows "(case decodeCode (trim (shareCode s)) of
            Inl e \<Rightarrow> applySettings s = (Some alertText, s)
          | Inr data \<Rightarrow>
              if accepted data then
                applySettings s = (None, applyFields s data) \<and>
                pixelsAcross (applyFields s data) =
                  (case numberProp data (js ''pixelsAcross'') of
                     None \<Rightarrow> pixelsAcross s
                   | Some (Fin v) \<Rightarrow> max 5 (min 400 (round v))
                   | Some PosInf \<Rightarrow> 400
                   | Some NegInf \<Rightarrow> 5) \<and>
                genesisX (applyFields s data) =
                  (case numberProp data (js ''genesisX'') of
                     None \<Rightarrow> genesisX s
                   | Some (Fin v) \<Rightarrow> GNum (jsInt (round v))
                   | Some PosInf \<Rightarrow> GPosInf
                   | Some NegInf \<Rightarrow> GNegInf) \<and>
                genesisY (applyFields s data) =
                  (case numberProp data (js ''genesisY'') of
                     None \<Rightarrow> genesisY s
                   | Some (Fin v) \<Rightarrow> GNum (jsInt (round v))
                   | Some PosInf \<Rightarrow> GPosInf
                   | Some NegInf \<Rightarrow> GNegInf) \<and>
                zoom (applyFields s data) =
                  (case numberProp data (js ''zoom'') of
                     None \<Rightarrow> zoom s
                   | Some (Fin v) \<Rightarrow> max 1 (min 64 (round v))
                   | Some PosInf \<Rightarrow> 64
                   | Some NegInf \<Rightarrow> 1) \<and>
                (\<forall>name v. numberProp data name = Some (Fin v) \<longrightarrow>
                    toDouble v = Fin v \<and> intOf (jsInt (round v)) = round v) \<and>
                (applyFields s data)\<lparr> pixelsAcross := pixelsAcross s, genesisX := genesisX s,
                     genesisY := genesisY s, zoom := zoom s \<rparr> = s
              else applySettings s = (Some alertText, s)) \<and>
         (fst (applySettings s) \<noteq> None \<longrightarrow> snd (applySettings s) = s)"
proof -
  have b: "fst (applySettings s) \<noteq> None \<longrightarrow> snd (applySettings s) = s"
    by (auto simp: applySettings_def Let_def split: sum.splits)
  show ?thesis
  proof (cases "decodeCode (trim (shareCode s))")
    case (Inl e)
    with applySettings_cases [OF assms] b show ?thesis by simp
  next
    case (Inr data)
    show ?thesis
    proof (cases "accepted data")
      case True
      have "applySettings s = (None, applyFields s data)"
        using applySettings_cases [OF assms] Inr True by simp
      moreover have "\<forall>name v. numberProp data name = Some (Fin v) \<longrightarrow>
                       toDouble v = Fin v \<and> intOf (jsInt (round v)) = round v"
        using numberProp_double [OF Inr] by blast
      ultimately show ?thesis
        using b Inr True applyFields_fields [of s data] by simp
    next
      case False
      with applySettings_cases [OF assms] b Inr show ?thesis by simp
    qed
  qed
qed

lemma trim_codes:
  "trim (js ''eyJ2IjoxLCJwaXhlbHNBY3Jvc3MiOjUwfQ=='') = js ''eyJ2IjoxLCJwaXhlbHNBY3Jvc3MiOjUwfQ==''"
  "trim (js ''eyJ2IjoxLCJwaXhlbHNBY3Jvc3MiOjUwLCJnZW5lc2lzWCI6IjciLCJnZW5lc2lzWSI6Miwiem9vbSI6M30='') =
     js ''eyJ2IjoxLCJwaXhlbHNBY3Jvc3MiOjUwLCJnZW5lc2lzWCI6IjciLCJnZW5lc2lzWSI6Miwiem9vbSI6M30=''"
  "trim (js ''eyJ2IjoyLCJwaXhlbHNBY3Jvc3MiOjUwLCJnZW5lc2lzWCI6MCwiZ2VuZXNpc1kiOjAsInpvb20iOjh9'') =
     js ''eyJ2IjoyLCJwaXhlbHNBY3Jvc3MiOjUwLCJnZW5lc2lzWCI6MCwiZ2VuZXNpc1kiOjAsInpvb20iOjh9''"
  "trim (js ''!!!'') = js ''!!!''"
  "trim (js ''bm90IGpzb24='') = js ''bm90IGpzb24=''"
  "trim (js ''eyJ2IjoxLjAwMDAwMDAwMDAwMDAwMDEsInBpeGVsc0Fjcm9zcyI6NTB9'') =
     js ''eyJ2IjoxLjAwMDAwMDAwMDAwMDAwMDEsInBpeGVsc0Fjcm9zcyI6NTB9''"
  "trim (js ''eyJ2IjoxLCJnZW5lc2lzWCI6MC40OTk5OTk5OTk5OTk5OTk5OTk5OSwiZ2VuZXNpc1kiOjFlOTk5fQ=='') =
     js ''eyJ2IjoxLCJnZW5lc2lzWCI6MC40OTk5OTk5OTk5OTk5OTk5OTk5OSwiZ2VuZXNpc1kiOjFlOTk5fQ==''"
  by (simp_all add: trim_def js_def isWhiteSpace_def)

lemma code_nonempty: "js (c # cs) \<noteq> []"
  by (simp add: js_def)

text \<open>
  Claim C4 as stated fails: the payload \<open>{"v":1,"pixelsAcross":50}\<close>, with three fields
  missing, raises no alert and changes \<open>pixelsAcross\<close> from 100 to 50; the payload
  \<open>{"v":1,"pixelsAcross":50,"genesisX":"7","genesisY":2,"zoom":3}\<close>, with a string for one
  field, raises no alert and applies the other three.
\<close>

theorem applySettings_partial_counterexample:
  "applySettings (codeState ''eyJ2IjoxLCJwaXhlbHNBY3Jvc3MiOjUwfQ=='') =
     (None, (codeState ''eyJ2IjoxLCJwaXhlbHNBY3Jvc3MiOjUwfQ=='')\<lparr> pixelsAcross := 50 \<rparr>) \<and>
   pixelsAcross (codeState ''eyJ2IjoxLCJwaXhlbHNBY3Jvc3MiOjUwfQ=='') = 100 \<and>
   applySettings (codeState ''eyJ2IjoxLCJwaXhlbHNBY3Jvc3MiOjUwLCJnZW5lc2lzWCI6IjciLCJnZW5lc2lzWSI6Miwiem9vbSI6M30='') =
     (None, (codeState ''eyJ2IjoxLCJwaXhlbHNBY3Jvc3MiOjUwLCJnZW5lc2lzWCI6IjciLCJnZW5lc2lzWSI6Miwiem9vbSI6M30='')
              \<lparr> pixelsAcross := 50, genesisY := GNum (jsInt 2), zoom := 3 \<rparr>)"
proof -
  let ?c1 = "''eyJ2IjoxLCJwaXhlbHNBY3Jvc3MiOjUwfQ==''"
  let ?d1 = "JObj [(js ''v'', JNum (Fin 1)), (js ''pixelsAcross'', JNum (Fin 50))]"
  let ?c2 = "''eyJ2IjoxLCJwaXhlbHNBY3Jvc3MiOjUwLCJnZW5lc2lzWCI6IjciLCJnZW5lc2lzWSI6Miwiem9vbSI6M30=''"
  let ?d2 = "JObj [(js ''v'', JNum (Fin 1)), (js ''pixelsAcross'', JNum (Fin 50)),
                (js ''genesisX'', JStr (js ''7'')), (js ''genesisY'', JNum (Fin 2)),
                (js ''zoom'', JNum (Fin 3))]"
  have t1: "trim (shareCode (codeState ?c1)) = js ?c1" and t2: "trim (shareCode (codeState ?c2)) = js ?c2"
    by (simp_all add: codeState_def trim_codes)
  have a1: "accepted ?d1" and a2: "accepted ?d2"
    by (simp_all add: accepted_def js_def)
  have f1: "applyFields (codeState ?c1) ?d1 = (codeState ?c1)\<lparr> pixelsAcross := 50 \<rparr>"
    by (simp add: applyFields_def numberProp_def js_def clamp_def)
  have f2: "applyFields (codeState ?c2) ?d2 =
              (codeState ?c2)\<lparr> pixelsAcross := 50, genesisY := GNum (jsInt 2), zoom := 3 \<rparr>"
    by (simp add: applyFields_def numberProp_def js_def clamp_def)
  have "applySettings (codeState ?c1) = (None, (codeState ?c1)\<lparr> pixelsAcross := 50 \<rparr>)"
    using applySettings_accepted [OF t1 code_nonempty decode_missing a1] f1 by simp
  moreover have "pixelsAcross (codeState ?c1) = 100"
    by (simp add: codeState_def initialState_def)
  moreover have "applySettings (codeState ?c2) =
     (None, (codeState ?c2)\<lparr> pixelsAcross := 50, genesisY := GNum (jsInt 2), zoom := 3 \<rparr>)"
    using applySettings_accepted [OF t2 code_nonempty decode_wrong_type a2] f2 by simp
  ultimately show ?thesis by blast
qed

text \<open>
  The payload \<open>{"v":1.0000000000000001,"pixelsAcross":50}\<close> is accepted: the double nearest to
  its \<open>v\<close> is 1.  In \<open>{"v":1,"genesisX":0.49999999999999999999,"genesisY":1e999}\<close> the first
  origin reads as the double \<open>0.5\<close>, which rounds to 1, and the second as \<open>Infinity\<close>.
\<close>

lemma toDouble_literals:
  "toDouble (10000000000000001 / 10000000000000000) = Fin 1"
  "toDouble (49999999999999999999 / 100000000000000000000) = Fin (1 / 2)"
  by (subst toDouble_eval [where e = 0], simp, simp, simp,
      simp add: roundHalfEven_def power_int_minus Let_def,
      subst toDouble_eval [where e = "- 2"], simp add: power_int_minus, simp add: power_int_minus,
      simp, simp add: roundHalfEven_def power_int_minus Let_def)

lemma toDouble_overflow:
  assumes "2 ^ 1024 \<le> v"
  shows "toDouble v = PosInf"
proof -
  have pos: "0 < v" using assms by (smt (verit) zero_less_power)
  let ?e = "\<lfloor>log 2 v\<rfloor>"
  have "(2::real) powi 1024 \<le> v" using assms by simp
  then have e: "1024 \<le> ?e" by (rule log2_ge)
  then have u: "ulpExponent v = ?e - 52" using pos by (simp add: ulpExponent_log)
  let ?q = "2 powi (?e - 52) :: real"
  have qpos: "0 < ?q" by simp
  have "?q * 2 ^ 52 = 2 powi ?e" by (simp add: power_int_diff)
  then have "real_of_int (2 ^ 52) \<le> v / ?q"
    using log2_bounds(1) [OF pos] qpos by (simp add: pos_le_divide_eq mult.commute)
  then have "2 ^ 52 \<le> roundHalfEven (v / ?q)" by (rule roundHalfEven_ge)
  then have m: "2 ^ 52 * ?q \<le> real_of_int (roundHalfEven (v / ?q)) * ?q"
    using qpos by (intro mult_right_mono) (simp_all add: numeral_power_le_of_int_cancel_iff)
  have k: "2 ^ 52 * ?q = 2 powi ?e" by (simp add: power_int_diff)
  have g: "(2::real) powi 1024 \<le> 2 powi ?e" using e by (intro power_int_increasing) simp_all
  have "(2::real) powi 1024 \<le> real_of_int (roundHalfEven (v / ?q)) * ?q"
    using m g unfolding k by (rule order_trans [rotated])
  then have "2 ^ 1024 \<le> real_of_int (roundHalfEven (v / ?q)) * ?q" by simp
  then show ?thesis using pos by (simp add: toDouble_def Let_def u)
qed

lemma decode_nearest:
  "decodeCode (js ''eyJ2IjoxLjAwMDAwMDAwMDAwMDAwMDEsInBpeGVsc0Fjcm9zcyI6NTB9'') =
     Inr (JObj [(js ''v'', JNum (Fin 1)), (js ''pixelsAcross'', JNum (Fin 50))])"
  "decodeCode (js ''eyJ2IjoxLCJnZW5lc2lzWCI6MC40OTk5OTk5OTk5OTk5OTk5OTk5OSwiZ2VuZXNpc1kiOjFlOTk5fQ=='') =
     Inr (JObj [(js ''v'', JNum (Fin 1)), (js ''genesisX'', JNum (Fin (1 / 2))),
                (js ''genesisY'', JNum PosInf)])"
  by (simp_all add: decode_eval toDouble_literals toDouble_overflow)

lemma applySettings_nearest_double:
  "applySettings (codeState ''eyJ2IjoxLjAwMDAwMDAwMDAwMDAwMDEsInBpeGVsc0Fjcm9zcyI6NTB9'') =
     (None, (codeState ''eyJ2IjoxLjAwMDAwMDAwMDAwMDAwMDEsInBpeGVsc0Fjcm9zcyI6NTB9'')\<lparr> pixelsAcross := 50 \<rparr>)"
  "applySettings (codeState ''eyJ2IjoxLCJnZW5lc2lzWCI6MC40OTk5OTk5OTk5OTk5OTk5OTk5OSwiZ2VuZXNpc1kiOjFlOTk5fQ=='') =
     (None, (codeState ''eyJ2IjoxLCJnZW5lc2lzWCI6MC40OTk5OTk5OTk5OTk5OTk5OTk5OSwiZ2VuZXNpc1kiOjFlOTk5fQ=='')\<lparr> genesisX := GNum (jsInt 1), genesisY := GPosInf \<rparr>)"
proof -
  let ?c4 = "''eyJ2IjoxLjAwMDAwMDAwMDAwMDAwMDEsInBpeGVsc0Fjcm9zcyI6NTB9''"
  let ?d4 = "JObj [(js ''v'', JNum (Fin 1)), (js ''pixelsAcross'', JNum (Fin 50))]"
  let ?c5 = "''eyJ2IjoxLCJnZW5lc2lzWCI6MC40OTk5OTk5OTk5OTk5OTk5OTk5OSwiZ2VuZXNpc1kiOjFlOTk5fQ==''"
  let ?d5 = "JObj [(js ''v'', JNum (Fin 1)), (js ''genesisX'', JNum (Fin (1 / 2))),
                (js ''genesisY'', JNum PosInf)]"
  have t4: "trim (shareCode (codeState ?c4)) = js ?c4" and t5: "trim (shareCode (codeState ?c5)) = js ?c5"
    by (simp_all add: codeState_def trim_codes)
  have a4: "accepted ?d4" and a5: "accepted ?d5"
    by (simp_all add: accepted_def js_def)
  have f4: "applyFields (codeState ?c4) ?d4 = (codeState ?c4)\<lparr> pixelsAcross := 50 \<rparr>"
    by (simp add: applyFields_def numberProp_def js_def clamp_def)
  have r: "round (1 / 2 :: real) = 1" by (simp add: round_def)
  have f5: "applyFields (codeState ?c5) ?d5 =
              (codeState ?c5)\<lparr> genesisX := GNum (jsInt 1), genesisY := GPosInf \<rparr>"
    by (simp add: applyFields_def numberProp_def js_def r)
  show "applySettings (codeState ?c4) = (None, (codeState ?c4)\<lparr> pixelsAcross := 50 \<rparr>)"
    using applySettings_accepted [OF t4 code_nonempty decode_nearest(1) a4] f4 by simp
  show "applySettings (codeState ?c5) =
          (None, (codeState ?c5)\<lparr> genesisX := GNum (jsInt 1), genesisY := GPosInf \<rparr>)"
    using applySettings_accepted [OF t5 code_nonempty decode_nearest(2) a5] f5 by simp
qed

theorem applySettings_validation_witness:
  "trim (shareCode (codeState ''eyJ2IjoyLCJwaXhlbHNBY3Jvc3MiOjUwLCJnZW5lc2lzWCI6MCwiZ2VuZXNpc1kiOjAsInpvb20iOjh9'')) \<noteq> [] \<and>
   applySettings (codeState ''eyJ2IjoyLCJwaXhlbHNBY3Jvc3MiOjUwLCJnZW5lc2lzWCI6MCwiZ2VuZXNpc1kiOjAsInpvb20iOjh9'') =
     (Some alertText, codeState ''eyJ2IjoyLCJwaXhlbHNBY3Jvc3MiOjUwLCJnZW5lc2lzWCI6MCwiZ2VuZXNpc1kiOjAsInpvb20iOjh9'') \<and>
   trim (shareCode (codeState ''bm90IGpzb24='')) \<noteq> [] \<and>
   applySettings (codeState ''bm90IGpzb24='') = (Some alertText, codeState ''bm90IGpzb24='') \<and>
   trim (shareCode (codeState ''!!!'')) \<noteq> [] \<and>
   applySettings (codeState ''!!!'') = (Some alertText, codeState ''!!!'') \<and>
   trim (shareCode (codeState ''eyJ2IjoxLjAwMDAwMDAwMDAwMDAwMDEsInBpeGVsc0Fjcm9zcyI6NTB9'')) \<noteq> [] \<and>
   applySettings (codeState ''eyJ2IjoxLjAwMDAwMDAwMDAwMDAwMDEsInBpeGVsc0Fjcm9zcyI6NTB9'') =
     (None, applyFields (codeState ''eyJ2IjoxLjAwMDAwMDAwMDAwMDAwMDEsInBpeGVsc0Fjcm9zcyI6NTB9'')
              (JObj [(js ''v'', JNum (Fin 1)), (js ''pixelsAcross'', JNum (Fin 50))])) \<and>
   pixelsAcross (applyFields (codeState ''eyJ2IjoxLjAwMDAwMDAwMDAwMDAwMDEsInBpeGVsc0Fjcm9zcyI6NTB9'')
              (JObj [(js ''v'', JNum (Fin 1)), (js ''pixelsAcross'', JNum (Fin 50))])) = 50"
proof -
  let ?c = "''eyJ2IjoyLCJwaXhlbHNBY3Jvc3MiOjUwLCJnZW5lc2lzWCI6MCwiZ2VuZXNpc1kiOjAsInpvb20iOjh9''"
  let ?d = "JObj [(js ''v'', JNum (Fin 2)), (js ''pixelsAcross'', JNum (Fin 50)), (js ''genesisX'', JNum (Fin 0)),
                (js ''genesisY'', JNum (Fin 0)), (js ''zoom'', JNum (Fin 8))]"
  let ?c4 = "''eyJ2IjoxLjAwMDAwMDAwMDAwMDAwMDEsInBpeGVsc0Fjcm9zcyI6NTB9''"
  let ?d4 = "JObj [(js ''v'', JNum (Fin 1)), (js ''pixelsAcross'', JNum (Fin 50))]"
  have t: "trim (shareCode (codeState ?c)) = js ?c"
    "trim (shareCode (codeState ''bm90IGpzb24='')) = js ''bm90IGpzb24=''"
    "trim (shareCode (codeState ''!!!'')) = js ''!!!''"
    "trim (shareCode (codeState ?c4)) = js ?c4"
    by (simp_all add: codeState_def trim_codes)
  have n: "trim (shareCode (codeState ?c)) \<noteq> []"
    "trim (shareCode (codeState ''bm90IGpzb24='')) \<noteq> []"
    "trim (shareCode (codeState ''!!!'')) \<noteq> []"
    "trim (shareCode (codeState ?c4)) \<noteq> []"
    unfolding t by (rule code_nonempty)+
  have r: "\<not> accepted ?d" and a4: "accepted ?d4"
    by (simp_all add: accepted_def js_def)
  have p4: "numberProp ?d4 (js ''pixelsAcross'') = Some (Fin 50)"
    by (simp add: numberProp_def js_def)
  from applySettings_validation [OF n(1)]
  have "applySettings (codeState ?c) = (Some alertText, codeState ?c)"
    unfolding t decode_version_2 using r by simp
  moreover from applySettings_validation [OF n(2)]
  have "applySettings (codeState ''bm90IGpzb24='') = (Some alertText, codeState ''bm90IGpzb24='')"
    unfolding t decode_failures by simp
  moreover from applySettings_validation [OF n(3)]
  have "applySettings (codeState ''!!!'') = (Some alertText, codeState ''!!!'')"
    unfolding t decode_failures by simp
  moreover from applySettings_validation [OF n(4)]
  have "applySettings (codeState ?c4) = (None, applyFields (codeState ?c4) ?d4) \<and>
        pixelsAcross (applyFields (codeState ?c4) ?d4) = 50"
    unfolding t decode_nearest using a4 p4 by simp
  ultimately show ?thesis using n by blast
qed

end
